theory Spec2Isabelle
  imports Main "HOL-Library.Sublist"
begin

section \<open>JavaScript strings\<close>

text \<open>
  A JavaScript string is modelled as a \<open>string\<close> (a list of characters, one per code
  unit). An argument that may be \<open>undefined\<close> is a \<open>string option\<close> with \<open>None\<close> for
  \<open>undefined\<close>. All operations of \<open>src/services/githubImg.js\<close> work code unit by code
  unit, so the width of a character plays no role.
\<close>

definition DQ :: string where
  "DQ = [CHR 0x22]"

definition SQ :: string where
  "SQ = [CHR 0x27]"

text \<open>\<open>s.startsWith(p)\<close>\<close>

definition startsWith :: "string \<Rightarrow> string \<Rightarrow> bool" where
  "startsWith s p = prefix p s"

text \<open>
  \<open>s.indexOf(pat)\<close> as the split of \<open>s\<close> around the first occurrence of \<open>pat\<close>:
  the text before it and the text after it, or \<open>None\<close> when \<open>pat\<close> does not occur.
\<close>

fun split_first :: "string \<Rightarrow> string \<Rightarrow> (string \<times> string) option" where
  "split_first pat [] = (if pat = [] then Some ([], []) else None)"
| "split_first pat (c # cs) =
     (if prefix pat (c # cs) then Some ([], drop (length pat) (c # cs))
      else (case split_first pat cs of
              None \<Rightarrow> None
            | Some (pre, post) \<Rightarrow> Some (c # pre, post)))"

text \<open>
  The replacement text of \<open>String.prototype.replace\<close> with a string pattern
  (GetSubstitution of ECMAScript, no capture groups): \<open>$$\<close> stands for \<open>$\<close>, \<open>$&\<close> for
  the matched text, \<open>$`\<close> for the text before the match and \<open>$'\<close> for the text after
  it; every other character, a \<open>$\<close> followed by anything else included, stands for
  itself.
\<close>

fun substitution :: "string \<Rightarrow> string \<Rightarrow> string \<Rightarrow> string \<Rightarrow> string" where
  "substitution matched pre post [] = []"
| "substitution matched pre post [c] = [c]"
| "substitution matched pre post (c # d # cs) =
     (if c = CHR ''$'' \<and> d = CHR ''$'' then CHR ''$'' # substitution matched pre post cs
      else if c = CHR ''$'' \<and> d = CHR ''&'' then matched @ substitution matched pre post cs
      else if c = CHR ''$'' \<and> d = CHR 0x60 then pre @ substitution matched pre post cs
      else if c = CHR ''$'' \<and> d = CHR 0x27 then post @ substitution matched pre post cs
      else c # substitution matched pre post (d # cs))"

text \<open>\<open>s.replace(pat, rep)\<close> for strings \<open>pat\<close> and \<open>rep\<close>: the first occurrence only.\<close>

definition replace :: "string \<Rightarrow> string \<Rightarrow> string \<Rightarrow> string" where
  "replace s pat rep =
     (case split_first pat s of
        None \<Rightarrow> s
      | Some (pre, post) \<Rightarrow> pre @ substitution pat pre post rep @ post)"

text \<open>\<open>s.split(c)\<close> for a one-character separator, and \<open>xs.join(sep)\<close>.\<close>

fun split :: "char \<Rightarrow> string \<Rightarrow> string list" where
  "split sep [] = [[]]"
| "split sep (c # cs) =
     (if c = sep then [] # split sep cs
      else (case split sep cs of
              [] \<Rightarrow> [[c]]
            | x # xs \<Rightarrow> (c # x) # xs))"

fun join :: "string \<Rightarrow> string list \<Rightarrow> string" where
  "join sep [] = []"
| "join sep [x] = x"
| "join sep (x # y # ys) = x @ sep @ join sep (y # ys)"

text \<open>\<open>s.split('?')[0]\<close>: \<open>split\<close> never returns the empty array.\<close>

definition split_head :: "char \<Rightarrow> string \<Rightarrow> string" where
  "split_head sep s = (case split sep s of [] \<Rightarrow> [] | x # xs \<Rightarrow> x)"

datatype error = TypeError | ListingFailed

section \<open>The attribute matcher\<close>

text \<open>
  \<open>getImgSrcs\<close> runs the regular expression
  \<^verbatim>\<open>/<img [^>]*src=(?:"([^"]+)"|'([^']+)')[^>]*>/g\<close> over the text with \<open>matchAll\<close>.
  The matcher below is the backtracking matcher of that expression: each piece takes
  the text still to be read and the rest of the expression as a continuation. A greedy
  repetition first tries one more character and falls back to the continuation.
  A match is the pair of its two capture groups (\<open>None\<close> for a group that took no part)
  together with the text after the match.
\<close>

type_synonym match = "string option \<times> string option"

text \<open>A literal piece of the expression: the text after it, if it is there.\<close>

definition lit :: "string \<Rightarrow> string \<Rightarrow> string option" where
  "lit p s = (if prefix p s then Some (drop (length p) s) else None)"

text \<open>\<open>[...]*\<close>, greedy; the result carries the characters the repetition took.\<close>

fun star :: "(char \<Rightarrow> bool) \<Rightarrow> (string \<Rightarrow> 'a option) \<Rightarrow> string \<Rightarrow> (string \<times> 'a) option" where
  "star P k [] = map_option (Pair []) (k [])"
| "star P k (c # cs) =
     (if P c then
        (case star P k cs of
           Some (taken, r) \<Rightarrow> Some (c # taken, r)
         | None \<Rightarrow> map_option (Pair []) (k (c # cs)))
      else map_option (Pair []) (k (c # cs)))"

text \<open>\<open>[...]+\<close>, greedy.\<close>

fun plus :: "(char \<Rightarrow> bool) \<Rightarrow> (string \<Rightarrow> 'a option) \<Rightarrow> string \<Rightarrow> (string \<times> 'a) option" where
  "plus P k [] = None"
| "plus P k (c # cs) =
     (if P c then
        (case star P k cs of
           Some (taken, r) \<Rightarrow> Some (c # taken, r)
         | None \<Rightarrow> None)
      else None)"

text \<open>\<open>[^>]*>\<close>, the end of the tag: the text after the match.\<close>

definition tag_end :: "string \<Rightarrow> string option" where
  "tag_end s = map_option snd (star (\<lambda>c. c \<noteq> CHR ''>'') (lit ''>'') s)"

text \<open>A quoted value \<open>q([^q]+)q\<close> followed by the end of the tag.\<close>

definition quoted :: "char \<Rightarrow> string \<Rightarrow> (string \<times> string) option" where
  "quoted q s =
     (case lit [q] s of
        None \<Rightarrow> None
      | Some v \<Rightarrow>
          plus (\<lambda>c. c \<noteq> q)
            (\<lambda>w. case lit [q] w of None \<Rightarrow> None | Some x \<Rightarrow> tag_end x) v)"

text \<open>\<open>src=(?:"([^"]+)"|'([^']+)')[^>]*>\<close>: the double-quoted alternative first.\<close>

definition src_attr :: "string \<Rightarrow> (match \<times> string) option" where
  "src_attr s =
     (case lit ''src='' s of
        None \<Rightarrow> None
      | Some u \<Rightarrow>
          (case quoted (CHR 0x22) u of
             Some (v, rest) \<Rightarrow> Some ((Some v, None), rest)
           | None \<Rightarrow>
               (case quoted (CHR 0x27) u of
                  Some (v, rest) \<Rightarrow> Some ((None, Some v), rest)
                | None \<Rightarrow> None)))"

text \<open>The whole expression, tried at the start of the text.\<close>

definition regex_at :: "string \<Rightarrow> (match \<times> string) option" where
  "regex_at s =
     (case lit ''<img '' s of
        None \<Rightarrow> None
      | Some r \<Rightarrow> map_option snd (star (\<lambda>c. c \<noteq> CHR ''>'') src_attr r))"

lemma star_shorter:
  assumes "\<And>t r. k t = Some r \<Longrightarrow> length (f r) < length t"
  shows "star P k s = Some (taken, r) \<Longrightarrow> length (f r) < length s"
proof (induction s arbitrary: taken)
  case Nil
  then show ?case by (auto dest: assms)
next
  case (Cons c cs)
  then show ?case
    by (fastforce split: if_splits option.splits dest: assms)
qed

lemma lit_shorter: "lit p s = Some r \<Longrightarrow> length r \<le> length s"
  by (auto simp: lit_def split: if_splits)

lemma lit_shorter_strict: "p \<noteq> [] \<Longrightarrow> lit p s = Some r \<Longrightarrow> length r < length s"
  by (cases s) (auto simp: lit_def split: if_splits)

lemma tag_end_shorter: "tag_end s = Some r \<Longrightarrow> length r < length s"
  unfolding tag_end_def
  using star_shorter [where f = "\<lambda>r. r" and k = "lit ''>''" and P = "\<lambda>c. c \<noteq> CHR ''>''"]
  by (auto dest: lit_shorter_strict [rotated])

lemma src_attr_shorter: "src_attr s = Some (m, r) \<Longrightarrow> length r < length s"
proof -
  have q: "length r' < length u" if "quoted q u = Some (v, r')" for q u v r'
  proof -
    from that obtain w where w: "lit [q] u = Some w"
      and p: "plus (\<lambda>c. c \<noteq> q)
                (\<lambda>w. case lit [q] w of None \<Rightarrow> None | Some x \<Rightarrow> tag_end x) w = Some (v, r')"
      by (auto simp: quoted_def split: option.splits)
    have k: "length r < length t"
      if "(case lit [q] t of None \<Rightarrow> None | Some x \<Rightarrow> tag_end x) = Some r" for t r
      using that by (auto split: option.splits dest!: lit_shorter tag_end_shorter)
    from p obtain c cs where cs: "w = c # cs" by (cases w) auto
    with p obtain taken where
      "star (\<lambda>c. c \<noteq> q) (\<lambda>w. case lit [q] w of None \<Rightarrow> None | Some x \<Rightarrow> tag_end x) cs = Some (taken, r')"
      by (auto split: if_splits option.splits)
    from star_shorter [where f = "\<lambda>r. r", OF k this] have "length r' < length cs" .
    with cs w show ?thesis by (auto dest: lit_shorter)
  qed
  assume "src_attr s = Some (m, r)"
  then show ?thesis
    by (auto simp: src_attr_def split: option.splits dest!: q lit_shorter)
qed

lemma regex_at_shorter: "regex_at s = Some (m, r) \<Longrightarrow> length r < length s"
proof -
  assume a: "regex_at s = Some (m, r)"
  then obtain u taken where u: "lit ''<img '' s = Some u"
    and st: "star (\<lambda>c. c \<noteq> CHR ''>'') src_attr u = Some (taken, (m, r))"
    by (auto simp: regex_at_def split: option.splits)
  have "length (snd (m, r)) < length u"
    by (rule star_shorter [where f = snd and k = src_attr, OF _ st])
       (auto dest: src_attr_shorter)
  with u show ?thesis by (auto dest: lit_shorter)
qed

text \<open>
  \<open>[...html.matchAll(regex)]\<close>: the expression is tried at the current position; after a
  match the search goes on behind it (a match is never empty), otherwise one character
  further on.
\<close>

function getImgSrcs :: "string \<Rightarrow> match list" where
  "getImgSrcs s =
     (case regex_at s of
        Some (m, rest) \<Rightarrow> m # getImgSrcs rest
      | None \<Rightarrow> (case s of [] \<Rightarrow> [] | c # cs \<Rightarrow> getImgSrcs cs))"
  by pat_completeness auto
termination
  by (relation "measure length") (auto dest: regex_at_shorter)

declare getImgSrcs.simps [simp del]


section \<open>URL translation\<close>

definition raw_host :: string where
  "raw_host = ''https://raw.githubusercontent.com/''"

text \<open>The template \<^verbatim>\<open>`https://raw.githubusercontent.com/${owner}/${repo}/${branch}/`\<close>.\<close>

definition raw_prefix :: "string \<Rightarrow> string \<Rightarrow> string \<Rightarrow> string" where
  "raw_prefix owner repo branch = raw_host @ owner @ ''/'' @ repo @ ''/'' @ branch @ ''/''"

definition getRelativeUrl :: "string \<Rightarrow> string \<Rightarrow> string \<Rightarrow> string \<Rightarrow> string" where
  "getRelativeUrl owner repo branch path =
     (if startsWith path raw_host
      then split_head (CHR ''?'') (replace path (raw_prefix owner repo branch) [])
      else path)"

section \<open>Matches and the loop over them\<close>

text \<open>\<open>match[1] || match[2]\<close>: the empty string and \<open>undefined\<close> are falsy.\<close>

definition match_src :: "match \<Rightarrow> string option" where
  "match_src m = (case fst m of Some v \<Rightarrow> (if v \<noteq> [] then Some v else snd m) | None \<Rightarrow> snd m)"

text \<open>\<open>match[1] ? '"' : "'"\<close>\<close>

definition match_quote :: "match \<Rightarrow> string" where
  "match_quote m = (case fst m of Some v \<Rightarrow> (if v \<noteq> [] then DQ else SQ) | None \<Rightarrow> SQ)"

text \<open>The text \<^verbatim>\<open>`src=${quote}${src}${quote}`\<close>.\<close>

definition src_text :: "string \<Rightarrow> string \<Rightarrow> string" where
  "src_text quote src = ''src='' @ quote @ src @ quote"

text \<open>
  A loop over the matches that updates the HTML; a method call on an \<open>undefined\<close> source
  value throws, which ends the loop.
\<close>

fun for_each :: "('a \<Rightarrow> 's \<Rightarrow> error + 's) \<Rightarrow> 'a list \<Rightarrow> 's \<Rightarrow> error + 's" where
  "for_each f [] s = Inr s"
| "for_each f (x # xs) s = (case f x s of Inl e \<Rightarrow> Inl e | Inr s' \<Rightarrow> for_each f xs s')"

text \<open>The test \<open>src.startsWith(from) && !(from == '/' && src.startsWith('//'))\<close>.\<close>

definition has_prefix :: "string \<Rightarrow> string \<Rightarrow> bool" where
  "has_prefix src from \<longleftrightarrow> startsWith src from \<and> \<not> (from = ''/'' \<and> startsWith src ''//'')"

text \<open>
  The test \<open>!src.startsWith('/') && !src.startsWith('http://') && !src.startsWith('https://')
  && !src.startsWith('data:image/')\<close>.
\<close>

definition is_relative :: "string \<Rightarrow> bool" where
  "is_relative src \<longleftrightarrow>
     \<not> startsWith src ''/'' \<and> \<not> startsWith src ''http://'' \<and> \<not> startsWith src ''https://''
     \<and> \<not> startsWith src ''data:image/''"

section \<open>From raw URLs back to relative paths\<close>

definition rawToRelativeUrls_step :: "string \<Rightarrow> string \<Rightarrow> string \<Rightarrow> match \<Rightarrow> string \<Rightarrow> error + string" where
  "rawToRelativeUrls_step owner repo branch m html =
     (case match_src m of
        None \<Rightarrow> Inl TypeError
      | Some src \<Rightarrow>
          (if startsWith src raw_host then
             (let relativePath = split_head (CHR ''?'') (replace src (raw_prefix owner repo branch) [])
              in Inr (replace html (src_text (match_quote m) src) (src_text (match_quote m) relativePath)))
           else Inr html))"

definition rawToRelativeUrls :: "string \<Rightarrow> string \<Rightarrow> string \<Rightarrow> string \<Rightarrow> error + string" where
  "rawToRelativeUrls owner repo branch html =
     for_each (rawToRelativeUrls_step owner repo branch) (getImgSrcs html) html"

section \<open>Prefix operations\<close>

text \<open>String conversion of an argument that may be \<open>undefined\<close>.\<close>

definition toString :: "string option \<Rightarrow> string" where
  "toString v = (case v of None \<Rightarrow> ''undefined'' | Some s \<Rightarrow> s)"

definition swapPrefix :: "string option \<Rightarrow> string option \<Rightarrow> string option \<Rightarrow> string option" where
  "swapPrefix path from to =
     (case (path, from, to) of
        (Some newPath, Some f, Some t) \<Rightarrow>
          (if has_prefix newPath f \<and> \<not> startsWith newPath ''http://''
              \<and> \<not> startsWith newPath ''https://'' \<and> \<not> startsWith newPath ''data:image/''
           then Some (replace newPath f t) else Some newPath)
      | _ \<Rightarrow> path)"

definition htmlSwapPrefix_step :: "string \<Rightarrow> string \<Rightarrow> match \<Rightarrow> string \<Rightarrow> error + string" where
  "htmlSwapPrefix_step from to m newHtml =
     (case match_src m of
        None \<Rightarrow> Inl TypeError
      | Some src \<Rightarrow>
          (if has_prefix src from \<and> \<not> startsWith src ''http://''
              \<and> \<not> startsWith src ''https://'' \<and> \<not> startsWith src ''data:image/''
           then (let newSrc = replace src from to
                 in Inr (replace newHtml (src_text (match_quote m) src) (src_text (match_quote m) newSrc)))
           else Inr newHtml))"

definition htmlSwapPrefix :: "string option \<Rightarrow> string option \<Rightarrow> string option \<Rightarrow> error + string option" where
  "htmlSwapPrefix html from to =
     (case (html, from, to) of
        (Some h, Some f, Some t) \<Rightarrow>
          map_sum id Some (for_each (htmlSwapPrefix_step f t) (getImgSrcs h) h)
      | _ \<Rightarrow> Inr html)"

text \<open>
  \<open>removePrefix\<close> and \<open>addPrefix\<close> have no test for \<open>undefined\<close>: \<open>undefined.matchAll\<close> throws,
  \<open>startsWith\<close>, \<open>replace\<close> and the template convert an \<open>undefined\<close> prefix to the text
  \<open>undefined\<close>, and \<open>undefined == '/'\<close> is false.
\<close>

definition removePrefix_step :: "string option \<Rightarrow> match \<Rightarrow> string \<Rightarrow> error + string" where
  "removePrefix_step pfx m html =
     (case match_src m of
        None \<Rightarrow> Inl TypeError
      | Some src \<Rightarrow>
          (if startsWith src (toString pfx) \<and> \<not> (pfx = Some ''/'' \<and> startsWith src ''//'')
           then (let srcWithoutPrefix = replace src (toString pfx) []
                 in Inr (replace html (src_text (match_quote m) src)
                           (src_text (match_quote m) srcWithoutPrefix)))
           else Inr html))"

definition removePrefix :: "string option \<Rightarrow> string option \<Rightarrow> error + string" where
  "removePrefix html pfx =
     (case html of
        None \<Rightarrow> Inl TypeError
      | Some h \<Rightarrow> for_each (removePrefix_step pfx) (getImgSrcs h) h)"

definition addPrefix_step :: "string option \<Rightarrow> match \<Rightarrow> string \<Rightarrow> error + string" where
  "addPrefix_step pfx m html =
     (case match_src m of
        None \<Rightarrow> Inl TypeError
      | Some src \<Rightarrow>
          (if is_relative src
           then Inr (replace html (src_text (match_quote m) src)
                       (src_text (match_quote m) (toString pfx @ src)))
           else Inr html))"

definition addPrefix :: "string option \<Rightarrow> string option \<Rightarrow> error + string" where
  "addPrefix html pfx =
     (case html of
        None \<Rightarrow> Inl TypeError
      | Some h \<Rightarrow> for_each (addPrefix_step pfx) (getImgSrcs h) h)"

section \<open>The directory cache and the resolver\<close>

text \<open>
  A file descriptor of a listing: its \<open>path\<close> and its \<open>download_url\<close> (\<open>None\<close> for
  \<open>null\<close>). A listing settles with the array of descriptors (\<open>None\<close> when the collaborator
  resolves with no array) or is rejected.
\<close>

type_synonym descriptor = "string \<times> string option"

datatype outcome = Resolved "descriptor list option" | Rejected

text \<open>
  The \<open>state\<close> object: \<open>urls\<close> (cache entries), \<open>paths\<close> (directory listing markers, the
  time of the listing) and \<open>requests\<close> (in-flight request markers). A pending listing is
  named by its handle, the number of the \<open>github.getContents\<close> call that made it.
\<close>

record state =
  urls :: "string \<rightharpoonup> string option"
  paths :: "string \<rightharpoonup> int"
  requests :: "string \<rightharpoonup> nat"

text \<open>
  What surrounds the module: the calls \<open>github.getContents(owner, repo, branch,
  parentPath, false)\<close> made so far, in order, the listings that have settled, and the
  wall clock that \<open>Date.now()\<close> reads.
\<close>

datatype request = GetContents string string string string

record world = state +
  listings :: "request list"
  settled :: "nat \<rightharpoonup> outcome"
  clock :: int

definition init :: "int \<Rightarrow> world" where
  "init t = \<lparr>urls = Map.empty, paths = Map.empty, requests = Map.empty,
             listings = [], settled = Map.empty, clock = t\<rparr>"

definition ttl :: int where
  "ttl = 10000"

text \<open>Truth of \<open>state.urls[k]\<close>: \<open>undefined\<close>, \<open>null\<close> and the empty string are falsy.\<close>

definition url_truthy :: "string option option \<Rightarrow> bool" where
  "url_truthy v = (case v of Some (Some s) \<Rightarrow> s \<noteq> [] | _ \<Rightarrow> False)"

text \<open>\<open>state.urls[k] || null\<close>\<close>

definition or_null :: "string option option \<Rightarrow> string option" where
  "or_null v = (case v of Some (Some s) \<Rightarrow> (if s \<noteq> [] then Some s else None) | _ \<Rightarrow> None)"

text \<open>Truth of \<open>state.paths[k]\<close>: \<open>undefined\<close> and the number 0 are falsy.\<close>

definition marker_truthy :: "int option \<Rightarrow> bool" where
  "marker_truthy v = (case v of Some t \<Rightarrow> t \<noteq> 0 | None \<Rightarrow> False)"

text \<open>\<open>state.paths[k] && state.paths[k] < Date.now() - ttl\<close>\<close>

definition marker_expired :: "int \<Rightarrow> int option \<Rightarrow> bool" where
  "marker_expired now v = (case v of Some t \<Rightarrow> t \<noteq> 0 \<and> t < now - ttl | None \<Rightarrow> False)"

text \<open>The key \<^verbatim>\<open>`${owner}/${repo}/${branch}/${path}`\<close>.\<close>

definition full_path :: "string \<Rightarrow> string \<Rightarrow> string \<Rightarrow> string \<Rightarrow> string" where
  "full_path owner repo branch path = owner @ ''/'' @ repo @ ''/'' @ branch @ ''/'' @ path"

text \<open>\<open>path.split('/').slice(0, -1).join('/')\<close>\<close>

definition parent_path :: "string \<Rightarrow> string" where
  "parent_path path = join ''/'' (butlast (split (CHR ''/'') path))"

definition addRawUrls :: "string \<Rightarrow> string \<Rightarrow> string \<Rightarrow> descriptor list option \<Rightarrow> world \<Rightarrow> world" where
  "addRawUrls owner repo branch files w =
     (case files of
        None \<Rightarrow> w
      | Some fs \<Rightarrow>
          fold (\<lambda>(path, download_url) w.
                  w\<lparr>urls := (urls w)(full_path owner repo branch path \<mapsto> download_url)\<rparr>) fs w)"

text \<open>
  \<open>getRawUrl\<close> in private mode runs in two pieces. The first runs up to the \<open>await\<close>: it
  returns a value, or it suspends on a listing.
\<close>

datatype started = Returned "string option" | Awaiting nat

definition getRawUrl_start :: "string \<Rightarrow> string \<Rightarrow> string \<Rightarrow> string \<Rightarrow> world \<Rightarrow> started \<times> world" where
  "getRawUrl_start owner repo branch path w =
     (let fullPath = full_path owner repo branch path in
      if \<not> url_truthy (urls w fullPath) then
        (let parentPath = parent_path path;
             fullParentPath = full_path owner repo branch parentPath;
             w1 = (if marker_expired (clock w) (paths w fullParentPath)
                   then w\<lparr>paths := (paths w)(fullParentPath := None)\<rparr> else w)
         in if marker_truthy (paths w1 fullParentPath) then (Returned None, w1)
            else (case requests w1 fullParentPath of
                    Some h \<Rightarrow> (Awaiting h, w1)
                  | None \<Rightarrow>
                      (Awaiting (length (listings w1)),
                       w1\<lparr>requests := (requests w1)(fullParentPath \<mapsto> length (listings w1)),
                          listings := listings w1 @ [GetContents owner repo branch parentPath]\<rparr>)))
      else (Returned (or_null (urls w fullPath)), w))"

text \<open>
  The second piece runs when the awaited listing has settled. A rejected listing makes
  the \<open>await\<close> throw: the rest of the function does not run.
\<close>

definition getRawUrl_resume ::
  "string \<Rightarrow> string \<Rightarrow> string \<Rightarrow> string \<Rightarrow> outcome \<Rightarrow> world \<Rightarrow> (error + string option) \<times> world" where
  "getRawUrl_resume owner repo branch path out w =
     (case out of
        Rejected \<Rightarrow> (Inl ListingFailed, w)
      | Resolved files \<Rightarrow>
          (let fullPath = full_path owner repo branch path;
               fullParentPath = full_path owner repo branch (parent_path path);
               w1 = addRawUrls owner repo branch files w;
               w2 = w1\<lparr>requests := (requests w1)(fullParentPath := None)\<rparr>;
               w3 = w2\<lparr>paths := (paths w2)(fullParentPath \<mapsto> clock w2)\<rparr>
           in (Inr (or_null (urls w3 fullPath)), w3)))"

subsection \<open>One caller at a time\<close>

text \<open>
  When nothing else runs while a call waits, the listing it awaits settles as the
  collaborator decides: \<open>response env h\<close> is the outcome of listing \<open>h\<close>, which takes
  \<open>latency env h\<close> milliseconds. A listing that has settled before keeps its outcome.
\<close>

record env =
  response :: "nat \<Rightarrow> outcome"
  latency :: "nat \<Rightarrow> int"

definition await :: "env \<Rightarrow> nat \<Rightarrow> world \<Rightarrow> outcome \<times> world" where
  "await env h w =
     (case settled w h of
        Some out \<Rightarrow> (out, w)
      | None \<Rightarrow>
          (response env h,
           w\<lparr>settled := (settled w)(h \<mapsto> response env h), clock := clock w + latency env h\<rparr>))"

definition getRawUrl ::
  "env \<Rightarrow> string \<Rightarrow> string \<Rightarrow> string \<Rightarrow> string \<Rightarrow> bool \<Rightarrow> world \<Rightarrow> (error + string option) \<times> world" where
  "getRawUrl env owner repo branch path isPrivate w =
     (if isPrivate then
        (case getRawUrl_start owner repo branch path w of
           (Returned v, w1) \<Rightarrow> (Inr v, w1)
         | (Awaiting h, w1) \<Rightarrow>
             (case await env h w1 of
                (out, w2) \<Rightarrow> getRawUrl_resume owner repo branch path out w2))
      else (Inr (Some (raw_prefix owner repo branch @ path)), w))"

text \<open>
  \<open>relativeToRawUrls\<close> awaits one \<open>getRawUrl\<close> call after the other; \<open>if (rawUrl)\<close> is
  false for \<open>null\<close> and for the empty string.
\<close>

fun relativeToRawUrls_loop ::
  "env \<Rightarrow> string \<Rightarrow> string \<Rightarrow> string \<Rightarrow> bool \<Rightarrow> match list \<Rightarrow> string \<Rightarrow> world \<Rightarrow> (error + string) \<times> world" where
  "relativeToRawUrls_loop env owner repo branch isPrivate [] newHtml w = (Inr newHtml, w)"
| "relativeToRawUrls_loop env owner repo branch isPrivate (m # ms) newHtml w =
     (case match_src m of
        None \<Rightarrow> (Inl TypeError, w)
      | Some src \<Rightarrow>
          (if is_relative src then
             (case getRawUrl env owner repo branch src isPrivate w of
                (Inl e, w') \<Rightarrow> (Inl e, w')
              | (Inr rawUrl, w') \<Rightarrow>
                  relativeToRawUrls_loop env owner repo branch isPrivate ms
                    (case rawUrl of
                       None \<Rightarrow> newHtml
                     | Some url \<Rightarrow>
                         (if url \<noteq> []
                          then replace newHtml (src_text (match_quote m) src)
                                 (src_text (match_quote m) url)
                          else newHtml)) w')
           else relativeToRawUrls_loop env owner repo branch isPrivate ms newHtml w))"

definition relativeToRawUrls ::
  "env \<Rightarrow> string \<Rightarrow> string \<Rightarrow> string \<Rightarrow> string \<Rightarrow> bool \<Rightarrow> world \<Rightarrow> (error + string) \<times> world" where
  "relativeToRawUrls env owner repo branch html isPrivate w =
     relativeToRawUrls_loop env owner repo branch isPrivate (getImgSrcs html) html w"

subsection \<open>Several callers\<close>

text \<open>
  JavaScript runs one piece of code at a time; a call of \<open>getRawUrl\<close> gives way to other
  code only at its \<open>await\<close>. A suspended call is kept with the handle of the listing it
  awaits. It goes on once that listing has settled; until it does, other code may run:
  time passes, other calls start, and other suspended calls go on.
\<close>

datatype call = Call string string string string

type_synonym waiter = "nat \<times> call"

fun start_call :: "call \<Rightarrow> world \<Rightarrow> started \<times> world" where
  "start_call (Call owner repo branch path) w = getRawUrl_start owner repo branch path w"

fun resume_call :: "call \<Rightarrow> outcome \<Rightarrow> world \<Rightarrow> (error + string option) \<times> world" where
  "resume_call (Call owner repo branch path) out w = getRawUrl_resume owner repo branch path out w"

text \<open>
  The states the module can be in, with the calls suspended in them: time passes
  (\<open>tick\<close>), a call in private mode starts and returns at once (\<open>returned\<close>) or suspends
  (\<open>suspended\<close>), a pending listing settles (\<open>settle\<close>), a suspended call whose listing
  has settled goes on (\<open>resume\<close>), and other code calls the exported \<open>addRawUrls\<close>
  (\<open>cached\<close>).
\<close>

inductive reachable :: "world \<Rightarrow> waiter list \<Rightarrow> bool" where
  initial: "reachable (init t) []"
| tick: "reachable w ws \<Longrightarrow> reachable (w\<lparr>clock := t\<rparr>) ws"
| returned: "reachable w ws \<Longrightarrow> start_call c w = (Returned v, w') \<Longrightarrow> reachable w' ws"
| suspended: "reachable w ws \<Longrightarrow> start_call c w = (Awaiting h, w') \<Longrightarrow> reachable w' (ws @ [(h, c)])"
| settle: "reachable w ws \<Longrightarrow> h < length (listings w) \<Longrightarrow> settled w h = None \<Longrightarrow>
           reachable (w\<lparr>settled := (settled w)(h \<mapsto> out)\<rparr>) ws"
| resume: "reachable w ws \<Longrightarrow> (h, c) \<in> set ws \<Longrightarrow> settled w h = Some out \<Longrightarrow>
           resume_call c out w = (res, w') \<Longrightarrow> reachable w' (remove1 (h, c) ws)"
| cached: "reachable w ws \<Longrightarrow> reachable (addRawUrls owner repo branch files w) ws"

text \<open>The fully-qualified directory path of a listing request and of a call.\<close>

fun dir_key :: "request \<Rightarrow> string" where
  "dir_key (GetContents owner repo branch parentPath) = full_path owner repo branch parentPath"

fun call_dir :: "call \<Rightarrow> string" where
  "call_dir (Call owner repo branch path) = full_path owner repo branch (parent_path path)"

text \<open>A listing is in flight when it has been requested and has not settled.\<close>

definition pending :: "world \<Rightarrow> nat \<Rightarrow> bool" where
  "pending w h \<longleftrightarrow> h < length (listings w) \<and> settled w h = None"

text \<open>
  What holds in every reachable state: a directory with a registered in-flight request
  has no marker.
\<close>

definition unmarked :: "world \<Rightarrow> bool" where
  "unmarked w \<longleftrightarrow> (\<forall>d h. requests w d = Some h \<longrightarrow> \<not> marker_truthy (paths w d))"

text \<open>A collaborator that settles every listing with the same outcome after 5 ms.\<close>

definition constant_env :: "outcome \<Rightarrow> env" where
  "constant_env out = \<lparr>response = (\<lambda>h. out), latency = (\<lambda>h. 5)\<rparr>"

subsection \<open>Example states\<close>

text \<open>
  The state after one call \<open>getRawUrl('o', 'r', 'main', 'docs/a.png', true)\<close> at time 1000,
  when the listing of \<open>docs\<close> resolves with \<open>docs/a.png\<close> at \<open>https://x/a.png\<close>.
\<close>

definition listed_world :: world where
  "listed_world =
     snd (getRawUrl (constant_env (Resolved (Some [(''docs/a.png'', Some ''https://x/a.png'')])))
            ''o'' ''r'' ''main'' ''docs/a.png'' True (init 1000))"

text \<open>The same, when the listing gives \<open>docs/a.png\<close> an empty \<open>download_url\<close>.\<close>

definition blank_world :: world where
  "blank_world =
     snd (getRawUrl (constant_env (Resolved (Some [(''docs/a.png'', Some [])])))
            ''o'' ''r'' ''main'' ''docs/a.png'' True (init 1000))"

text \<open>The same, when the listing is rejected.\<close>

definition failed_world :: world where
  "failed_world =
     snd (getRawUrl (constant_env Rejected) ''o'' ''r'' ''main'' ''docs/a.png'' True (init 1000))"

text \<open>
  Four calls for files of \<open>docs\<close>. The call for \<open>a.png\<close> requests listing 0, which
  resolves with no files. Before that call has gone on, a call for \<open>b.png\<close> starts; the
  request is still registered, so it waits for listing 0 as well. The call for \<open>a.png\<close>
  goes on at 2000. At 20000, before the call for \<open>b.png\<close> has gone on, a call for
  \<open>c.png\<close> starts and requests listing 1. Then the call for \<open>b.png\<close> goes on. At 40000,
  with listing 1 still pending, a call for \<open>d.png\<close> starts.
\<close>

definition overlap_world :: world where
  "overlap_world =
     (let w1 = snd (start_call (Call ''o'' ''r'' ''main'' ''docs/a.png'') (init 1000));
          w2 = w1\<lparr>settled := (settled w1)(0 \<mapsto> Resolved (Some []))\<rparr>;
          w3 = snd (start_call (Call ''o'' ''r'' ''main'' ''docs/b.png'') w2);
          w4 = snd (resume_call (Call ''o'' ''r'' ''main'' ''docs/a.png'') (Resolved (Some []))
                      (w3\<lparr>clock := 2000\<rparr>));
          w5 = snd (start_call (Call ''o'' ''r'' ''main'' ''docs/c.png'') (w4\<lparr>clock := 20000\<rparr>));
          w6 = snd (resume_call (Call ''o'' ''r'' ''main'' ''docs/b.png'') (Resolved (Some [])) w5)
      in snd (start_call (Call ''o'' ''r'' ''main'' ''docs/d.png'') (w6\<lparr>clock := 40000\<rparr>)))"

section \<open>What a rewriting changes\<close>

text \<open>
  What an operation does to an HTML text, match by match. \<open>N v r\<close> says what the
  operation puts for a matched value \<open>v\<close>: nothing (\<open>r = None\<close>) or the new value \<open>u\<close>
  (\<open>r = Some u\<close>). \<open>rewritten N ms h h'\<close>: going through the matches \<open>ms\<close> in order
  turns \<open>h\<close> into \<open>h'\<close>. A match with nothing to put changes nothing (\<open>kept\<close>). A match
  whose text \<^verbatim>\<open>src=<quote><value><quote>\<close> does not occur in the current text changes
  nothing (\<open>absent\<close>). Otherwise the first occurrence of that text in the current text
  is replaced by what \<open>String.prototype.replace\<close> makes of the replacement
  \<^verbatim>\<open>src=<quote><new value><quote>\<close>, and the text before and after the occurrence
  stays as it is (\<open>replaced\<close>).
\<close>

inductive rewritten :: "(string \<Rightarrow> string option \<Rightarrow> bool) \<Rightarrow> match list \<Rightarrow> string \<Rightarrow> string \<Rightarrow> bool"
  for N :: "string \<Rightarrow> string option \<Rightarrow> bool" where
  finished: "rewritten N [] h h"
| kept: "match_src m = Some v \<Longrightarrow> N v None \<Longrightarrow> rewritten N ms h h' \<Longrightarrow>
      rewritten N (m # ms) h h'"
| absent: "match_src m = Some v \<Longrightarrow> N v (Some u) \<Longrightarrow>
      (\<forall>pre post. h \<noteq> pre @ src_text (match_quote m) v @ post) \<Longrightarrow>
      rewritten N ms h h' \<Longrightarrow> rewritten N (m # ms) h h'"
| replaced: "match_src m = Some v \<Longrightarrow> N v (Some u) \<Longrightarrow>
      h = pre @ src_text (match_quote m) v @ post \<Longrightarrow>
      (\<forall>pre' post'. h = pre' @ src_text (match_quote m) v @ post' \<longrightarrow> length pre \<le> length pre') \<Longrightarrow>
      rewritten N ms
        (pre @ substitution (src_text (match_quote m) v) pre post (src_text (match_quote m) u) @ post) h' \<Longrightarrow>
      rewritten N (m # ms) h h'"

text \<open>
  An \<open>img\<close> tag, up to its first \<open>>\<close>, that offers the expression no source value:
  wherever the text \<open>src=\<close> stands in it with a quote after it, the same quote follows
  at once, as in \<^verbatim>\<open>src=""\<close> and \<^verbatim>\<open>src=''\<close>.
\<close>

definition sourceless_tag :: "string \<Rightarrow> bool" where
  "sourceless_tag T \<longleftrightarrow>
     (\<exists>attrs. T = ''<img '' @ attrs @ ''>'' \<and> CHR ''>'' \<notin> set attrs
        \<and> (\<forall>u w. attrs = u @ ''src='' @ w \<longrightarrow>
              (prefix DQ w \<longrightarrow> prefix (DQ @ DQ) w) \<and> (prefix SQ w \<longrightarrow> prefix (SQ @ SQ) w)))"

text \<open>
  \<open>around ms A B A' B'\<close>: the texts \<open>A\<close> and \<open>B\<close> on the two sides of a tag become \<open>A'\<close>
  and \<open>B'\<close> when, for each match of \<open>ms\<close> in order, nothing changes or one occurrence
  of its text \<^verbatim>\<open>src=<quote><value><quote>\<close> on one of the two sides is replaced.
\<close>

inductive around :: "match list \<Rightarrow> string \<Rightarrow> string \<Rightarrow> string \<Rightarrow> string \<Rightarrow> bool" where
  stop: "around [] A B A B"
| skip: "around ms A B A' B' \<Longrightarrow> around (m # ms) A B A' B'"
| before: "match_src m = Some v \<Longrightarrow> around ms (pre @ new @ post) B A' B' \<Longrightarrow>
      around (m # ms) (pre @ src_text (match_quote m) v @ post) B A' B'"
| after: "match_src m = Some v \<Longrightarrow> around ms A (pre @ new @ post) A' B' \<Longrightarrow>
      around (m # ms) A (pre @ src_text (match_quote m) v @ post) A' B'"

section \<open>Properties of the string operations\<close>

lemma split_first_prefix: "prefix pat s \<Longrightarrow> split_first pat s = Some ([], drop (length pat) s)"
  by (cases s) auto

lemma split_first_Some: "split_first pat s = Some (pre, post) \<Longrightarrow> s = pre @ pat @ post"
proof (induction s arbitrary: pre)
  case Nil
  then show ?case by (auto split: if_splits)
next
  case (Cons c cs)
  then show ?case
    by (auto split: if_splits option.splits simp: prefix_def)
qed

lemma split_first_None: "split_first pat s = None \<Longrightarrow> s \<noteq> pre @ pat @ post"
proof (induction s arbitrary: pre)
  case Nil
  then show ?case by (auto split: if_splits)
next
  case (Cons c cs)
  show ?case
  proof
    assume eq: "c # cs = pre @ pat @ post"
    from Cons.prems have np: "\<not> prefix pat (c # cs)" and n: "split_first pat cs = None"
      by (auto split: if_splits option.splits)
    show False
    proof (cases pre)
      case Nil
      with eq np show False by (auto simp: prefix_def)
    next
      case (Cons d ds)
      with eq have "cs = ds @ pat @ post" by simp
      with Cons.IH [OF n] show False by blast
    qed
  qed
qed

lemma split_first_least:
  "split_first pat s = Some (pre, post) \<Longrightarrow> s = pre' @ pat @ post' \<Longrightarrow> length pre \<le> length pre'"
proof (induction s arbitrary: pre pre')
  case Nil
  then show ?case by (auto split: if_splits)
next
  case (Cons c cs)
  show ?case
  proof (cases "prefix pat (c # cs)")
    case True
    with Cons.prems(1) have "pre = []" by simp
    then show ?thesis by simp
  next
    case False
    with Cons.prems(1) obtain p where p: "split_first pat cs = Some (p, post)" and pre: "pre = c # p"
      by (auto split: option.splits)
    from False Cons.prems(2) obtain ds where ds: "pre' = c # ds"
      by (cases pre') (auto simp: prefix_def)
    with Cons.prems(2) have "cs = ds @ pat @ post'" by simp
    from Cons.IH [OF p this] pre ds show ?thesis by simp
  qed
qed

lemma split_nonempty: "split c s \<noteq> []"
  by (induction s) (auto split: list.splits)

lemma split_head_takeWhile: "split_head c s = takeWhile (\<lambda>x. x \<noteq> c) s"
  by (induction s) (auto simp: split_head_def split: list.splits)

lemma substitution_Nil: "substitution m pre post [] = []" by simp

lemma replace_prefix_Nil: "prefix pat s \<Longrightarrow> replace s pat [] = drop (length pat) s"
  by (simp add: replace_def split_first_prefix)

lemma replace_absent: "(\<And>pre post. s \<noteq> pre @ pat @ post) \<Longrightarrow> replace s pat rep = s"
  by (auto simp: replace_def split: option.splits dest: split_first_Some)

section \<open>Properties of the resolver\<close>

lemma addRawUrls_urls: "\<exists>u. addRawUrls owner repo branch files w = w\<lparr>urls := u\<rparr>"
proof (cases files)
  case None
  then show ?thesis by (intro exI [of _ "urls w"]) (simp add: addRawUrls_def)
next
  case (Some fs)
  let ?F = "\<lambda>(path, download_url) w.
              w\<lparr>urls := (urls w)(full_path owner repo branch path \<mapsto> download_url)\<rparr>"
  have "\<exists>u. fold ?F fs w = w\<lparr>urls := u\<rparr>"
  proof (induction fs arbitrary: w)
    case Nil
    show ?case by (intro exI [of _ "urls w"]) simp
  next
    case (Cons f fs)
    obtain p d where f: "f = (p, d)" by (cases f)
    let ?w1 = "w\<lparr>urls := (urls w)(full_path owner repo branch p \<mapsto> d)\<rparr>"
    from Cons [of ?w1] obtain u where u: "fold ?F fs ?w1 = ?w1\<lparr>urls := u\<rparr>" by blast
    have "fold ?F (f # fs) w = fold ?F fs ?w1" by (simp add: f)
    also have "\<dots> = w\<lparr>urls := u\<rparr>" by (simp only: u) simp
    finally show ?case by blast
  qed
  with Some show ?thesis by (simp add: addRawUrls_def)
qed

lemma start_effect:
  assumes "getRawUrl_start owner repo branch path w = (res, w')"
  defines "d \<equiv> full_path owner repo branch (parent_path path)"
  defines "w1 \<equiv> (if marker_expired (clock w) (paths w d)
                  then w\<lparr>paths := (paths w)(d := None)\<rparr> else w)"
  shows "(\<exists>v. res = Returned v \<and> (w' = w \<or> w' = w1))
       \<or> (\<exists>h. res = Awaiting h \<and> requests w1 d = Some h \<and> w' = w1)
       \<or> (res = Awaiting (length (listings w1)) \<and> requests w1 d = None
            \<and> \<not> marker_truthy (paths w1 d)
            \<and> w' = w1\<lparr>requests := (requests w1)(d \<mapsto> length (listings w1)),
                       listings := listings w1 @ [GetContents owner repo branch (parent_path path)]\<rparr>)"
proof -
  have eq: "getRawUrl_start owner repo branch path w =
     (if \<not> url_truthy (urls w (full_path owner repo branch path)) then
        (if marker_truthy (paths w1 d) then (Returned None, w1)
         else (case requests w1 d of
                 Some h \<Rightarrow> (Awaiting h, w1)
               | None \<Rightarrow>
                   (Awaiting (length (listings w1)),
                    w1\<lparr>requests := (requests w1)(d \<mapsto> length (listings w1)),
                       listings := listings w1 @ [GetContents owner repo branch (parent_path path)]\<rparr>)))
      else (Returned (or_null (urls w (full_path owner repo branch path))), w))"
    unfolding getRawUrl_start_def Let_def d_def w1_def ..
  show ?thesis
  proof (cases "url_truthy (urls w (full_path owner repo branch path))")
    case True
    with assms(1) eq show ?thesis by auto
  next
    case False
    show ?thesis
    proof (cases "marker_truthy (paths w1 d)")
      case True
      with False assms(1) eq show ?thesis by auto
    next
      case nm: False
      show ?thesis
      proof (cases "requests w1 d")
        case None
        with False nm assms(1) eq show ?thesis by auto
      next
        case (Some h)
        with False nm assms(1) eq show ?thesis by auto
      qed
    qed
  qed
qed

lemma unmarked_start:
  assumes "unmarked w" and "start_call c w = (res, w')"
  shows "unmarked w'"
proof -
  obtain owner repo branch path where c: "c = Call owner repo branch path" by (cases c)
  let ?d = "full_path owner repo branch (parent_path path)"
  let ?w1 = "if marker_expired (clock w) (paths w ?d) then w\<lparr>paths := (paths w)(?d := None)\<rparr> else w"
  from assms(1) have u1: "unmarked ?w1"
    unfolding unmarked_def by (auto simp: marker_truthy_def)
  from assms(2) consider "w' = w" | "w' = ?w1"
    | "\<not> marker_truthy (paths ?w1 ?d)"
      "w' = ?w1\<lparr>requests := (requests ?w1)(?d \<mapsto> length (listings ?w1)),
                  listings := listings ?w1 @ [GetContents owner repo branch (parent_path path)]\<rparr>"
    using start_effect [of owner repo branch path w res w'] by (auto simp: c)
  then show ?thesis
  proof cases
    case 1
    with assms(1) show ?thesis by simp
  next
    case 2
    with u1 show ?thesis by simp
  next
    case 3
    have "unmarked (?w1\<lparr>requests := (requests ?w1)(?d \<mapsto> length (listings ?w1)),
                  listings := listings ?w1 @ [GetContents owner repo branch (parent_path path)]\<rparr>)"
      unfolding unmarked_def
    proof (intro allI impI)
      fix d h
      assume a: "requests (?w1\<lparr>requests := (requests ?w1)(?d \<mapsto> length (listings ?w1)),
                  listings := listings ?w1 @ [GetContents owner repo branch (parent_path path)]\<rparr>) d
                 = Some h"
      show "\<not> marker_truthy (paths (?w1\<lparr>requests := (requests ?w1)(?d \<mapsto> length (listings ?w1)),
                  listings := listings ?w1 @ [GetContents owner repo branch (parent_path path)]\<rparr>) d)"
      proof (cases "d = ?d")
        case True
        with 3(1) show ?thesis by simp
      next
        case False
        with a have "requests ?w1 d = Some h" by simp
        with u1 have "\<not> marker_truthy (paths ?w1 d)" unfolding unmarked_def by blast
        then show ?thesis by simp
      qed
    qed
    with 3(2) show ?thesis by simp
  qed
qed

lemma resume_rejected: "resume_call c Rejected w = (Inl ListingFailed, w)"
  by (cases c) (simp add: getRawUrl_resume_def)

lemma resume_resolved:
  "\<exists>u. snd (resume_call c (Resolved fs) w) =
         w\<lparr>urls := u, paths := (paths w)(call_dir c \<mapsto> clock w),
           requests := (requests w)(call_dir c := None)\<rparr>"
proof -
  obtain owner repo branch path where c: "c = Call owner repo branch path" by (cases c)
  obtain u where u: "addRawUrls owner repo branch fs w = w\<lparr>urls := u\<rparr>"
    using addRawUrls_urls by blast
  show ?thesis
    by (rule exI [of _ u]) (simp add: c getRawUrl_resume_def Let_def u)
qed

lemma unmarked_resume:
  assumes "unmarked w" and "resume_call c out w = (res, w')"
  shows "unmarked w'"
proof (cases out)
  case Rejected
  with assms show ?thesis by (simp add: resume_rejected)
next
  case (Resolved fs)
  from resume_resolved [of c fs w] obtain u where
    "snd (resume_call c (Resolved fs) w) =
       w\<lparr>urls := u, paths := (paths w)(call_dir c \<mapsto> clock w),
         requests := (requests w)(call_dir c := None)\<rparr>" by blast
  with assms(2) Resolved have w': "w' = w\<lparr>urls := u, paths := (paths w)(call_dir c \<mapsto> clock w),
         requests := (requests w)(call_dir c := None)\<rparr>" by simp
  show ?thesis
    unfolding unmarked_def
  proof (intro allI impI)
    fix d h assume "requests w' d = Some h"
    with w' have "d \<noteq> call_dir c" "requests w d = Some h" by (auto split: if_splits)
    with assms(1) w' show "\<not> marker_truthy (paths w' d)" unfolding unmarked_def by auto
  qed
qed

lemma unmarked_addRawUrls:
  assumes "unmarked w"
  shows "unmarked (addRawUrls owner repo branch files w)"
proof -
  obtain u where "addRawUrls owner repo branch files w = w\<lparr>urls := u\<rparr>"
    using addRawUrls_urls by blast
  with assms show ?thesis by (simp add: unmarked_def)
qed

lemma reachable_unmarked: "reachable w ws \<Longrightarrow> unmarked w"
proof (induction rule: reachable.induct)
  case (initial t)
  show ?case by (simp add: unmarked_def init_def)
next
  case (tick w ws t)
  then show ?case by (simp add: unmarked_def)
next
  case (returned w ws c v w')
  then show ?case by (blast intro: unmarked_start)
next
  case (suspended w ws c h w')
  then show ?case by (blast intro: unmarked_start)
next
  case (settle w ws h out)
  then show ?case by (simp add: unmarked_def)
next
  case (resume w ws h c out res w')
  then show ?case by (blast intro: unmarked_resume)
next
  case (cached w ws owner repo branch files)
  then show ?case by (blast intro: unmarked_addRawUrls)
qed

lemma unmarked_no_request:
  assumes "unmarked w" and "marker_truthy (paths w d)"
  shows "requests w d = None"
proof (cases "requests w d")
  case None
  then show ?thesis .
next
  case (Some h)
  from assms(1) [unfolded unmarked_def, rule_format, OF Some] assms(2) show ?thesis by simp
qed

lemma start_cold:
  assumes "\<not> url_truthy (urls w (full_path owner repo branch path))"
    and "\<not> marker_truthy (paths w d) \<or> marker_expired (clock w) (paths w d)"
    and "requests w d = None"
    and d: "d = full_path owner repo branch (parent_path path)"
  shows "getRawUrl_start owner repo branch path w =
           (Awaiting (length (listings w)),
            w\<lparr>paths := (if marker_expired (clock w) (paths w d) then (paths w)(d := None) else paths w),
              requests := (requests w)(d \<mapsto> length (listings w)),
              listings := listings w @ [GetContents owner repo branch (parent_path path)]\<rparr>)"
  using assms(1-3) unfolding d
  by (auto simp: getRawUrl_start_def Let_def marker_truthy_def)

lemma start_join:
  assumes "\<not> url_truthy (urls w (full_path owner repo branch path))"
    and "\<not> marker_truthy (paths w d)"
    and "requests w d = Some h"
    and d: "d = full_path owner repo branch (parent_path path)"
  shows "getRawUrl_start owner repo branch path w = (Awaiting h, w)"
  using assms(1-3) unfolding d
  by (auto simp: getRawUrl_start_def Let_def marker_truthy_def marker_expired_def split: option.splits)


lemmas html_defs = addPrefix_def addPrefix_step_def removePrefix_def removePrefix_step_def
  htmlSwapPrefix_def htmlSwapPrefix_step_def rawToRelativeUrls_def rawToRelativeUrls_step_def
  relativeToRawUrls_def match_src_def match_quote_def src_text_def is_relative_def has_prefix_def
  startsWith_def toString_def replace_def DQ_def SQ_def raw_prefix_def raw_host_def split_head_def

lemmas regex_defs = getImgSrcs.simps regex_at_def lit_def src_attr_def quoted_def tag_end_def

lemmas cache_defs = getRawUrl_def getRawUrl_start_def getRawUrl_resume_def await_def addRawUrls_def
  full_path_def parent_path_def url_truthy_def or_null_def marker_truthy_def marker_expired_def
  init_def ttl_def constant_env_def Let_def

lemma listed_world_reachable: "reachable listed_world []"
proof -
  let ?c = "Call ''o'' ''r'' ''main'' ''docs/a.png''"
  let ?out = "Resolved (Some [(''docs/a.png'', Some ''https://x/a.png'')])"
  let ?w1 = "snd (start_call ?c (init 1000))"
  let ?w2 = "?w1\<lparr>settled := (settled ?w1)(0 \<mapsto> ?out)\<rparr>"
  let ?w3 = "?w2\<lparr>clock := 1005\<rparr>"
  have s: "start_call ?c (init 1000) = (Awaiting 0, ?w1)"
    by (simp add: cache_defs)
  have r1: "reachable ?w1 ([] @ [(0, ?c)])"
    by (rule suspended [OF initial s])
  have r2: "reachable ?w2 ([] @ [(0, ?c)])"
    by (rule settle [OF r1]) (simp_all add: cache_defs)
  have r3: "reachable ?w3 ([] @ [(0, ?c)])"
    by (rule tick [OF r2])
  have "reachable (snd (resume_call ?c ?out ?w3)) (remove1 (0, ?c) ([] @ [(0, ?c)]))"
    by (rule resume [OF r3, where out = ?out and res = "fst (resume_call ?c ?out ?w3)"])
       (simp_all add: cache_defs)
  moreover have "snd (resume_call ?c ?out ?w3) = listed_world"
    by (simp add: listed_world_def cache_defs)
  ultimately show ?thesis by simp
qed

lemma listed_world_facts:
  "urls listed_world ''o/r/main/docs/a.png'' = Some (Some ''https://x/a.png'')"
  "urls listed_world ''o/r/main/docs/b.png'' = None"
  "paths listed_world ''o/r/main/docs'' = Some 1005"
  "requests listed_world ''o/r/main/docs'' = None"
  "listings listed_world = [GetContents ''o'' ''r'' ''main'' ''docs'']"
  "clock listed_world = 1005"
  by (simp_all add: listed_world_def cache_defs)

lemma example_paths:
  "full_path ''o'' ''r'' ''main'' ''docs/a.png'' = ''o/r/main/docs/a.png''"
  "full_path ''o'' ''r'' ''main'' ''docs/b.png'' = ''o/r/main/docs/b.png''"
  "full_path ''o'' ''r'' ''main'' (parent_path ''docs/a.png'') = ''o/r/main/docs''"
  "full_path ''o'' ''r'' ''main'' (parent_path ''docs/b.png'') = ''o/r/main/docs''"
  "full_path ''o'' ''r'' ''main'' ''docs'' = ''o/r/main/docs''"
  "parent_path ''docs/a.png'' = ''docs''"
  "parent_path ''docs/b.png'' = ''docs''"
  by (simp_all add: full_path_def parent_path_def)

lemma blank_world_facts:
  "urls blank_world ''o/r/main/docs/a.png'' = Some (Some [])"
  "paths blank_world ''o/r/main/docs'' = Some 1005"
  "requests blank_world ''o/r/main/docs'' = None"
  "listings blank_world = [GetContents ''o'' ''r'' ''main'' ''docs'']"
  "clock blank_world = 1005"
  by (simp_all add: blank_world_def cache_defs)

lemma or_null_cases:
  "or_null x \<noteq> Some []"
  "x = None \<or> x = Some None \<or> x = Some (Some []) \<Longrightarrow> or_null x = None"
  "\<not> url_truthy x \<longleftrightarrow> x = None \<or> x = Some None \<or> x = Some (Some [])"
  by (auto simp: or_null_def url_truthy_def split: option.splits)

lemma addRawUrls_lookup:
  "urls (addRawUrls owner repo branch (Some fs) w) (full_path owner repo branch path) =
     (case map_of (rev fs) path of
        Some d \<Rightarrow> Some d
      | None \<Rightarrow> urls w (full_path owner repo branch path))"
proof (induction fs rule: rev_induct)
  case Nil
  show ?case by (simp add: addRawUrls_def)
next
  case (snoc f fs)
  obtain p d where f: "f = (p, d)" by (cases f)
  have inj: "full_path owner repo branch p = full_path owner repo branch path \<longleftrightarrow> p = path"
    "full_path owner repo branch path = full_path owner repo branch p \<longleftrightarrow> path = p"
    by (simp_all add: full_path_def)
  from snoc show ?case
    by (simp add: addRawUrls_def f inj)
qed

lemma resume_result:
  "fst (getRawUrl_resume owner repo branch path Rejected w) = Inl ListingFailed"
  "fst (getRawUrl_resume owner repo branch path (Resolved None) w)
     = Inr (or_null (urls w (full_path owner repo branch path)))"
  "fst (getRawUrl_resume owner repo branch path (Resolved (Some fs)) w)
     = Inr (case map_of (rev fs) path of
              Some (Some url) \<Rightarrow> (if url = [] then None else Some url)
            | Some None \<Rightarrow> None
            | None \<Rightarrow> or_null (urls w (full_path owner repo branch path)))"
proof -
  show "fst (getRawUrl_resume owner repo branch path Rejected w) = Inl ListingFailed"
    by (simp add: getRawUrl_resume_def)
  show "fst (getRawUrl_resume owner repo branch path (Resolved None) w)
     = Inr (or_null (urls w (full_path owner repo branch path)))"
    by (simp add: getRawUrl_resume_def Let_def addRawUrls_def)
  have "fst (getRawUrl_resume owner repo branch path (Resolved (Some fs)) w)
     = Inr (or_null (urls (addRawUrls owner repo branch (Some fs) w)
                        (full_path owner repo branch path)))"
    by (simp add: getRawUrl_resume_def Let_def)
  then show "fst (getRawUrl_resume owner repo branch path (Resolved (Some fs)) w)
     = Inr (case map_of (rev fs) path of
              Some (Some url) \<Rightarrow> (if url = [] then None else Some url)
            | Some None \<Rightarrow> None
            | None \<Rightarrow> or_null (urls w (full_path owner repo branch path)))"
    by (simp add: addRawUrls_lookup or_null_def split: option.splits)
qed

lemma two_calls_one_listing:
  assumes "parent_path path' = parent_path path"
    and "\<not> url_truthy (urls w (full_path owner repo branch path))"
    and "\<not> url_truthy (urls w (full_path owner repo branch path'))"
    and "\<not> marker_truthy (paths w (full_path owner repo branch (parent_path path)))
         \<or> marker_expired (clock w) (paths w (full_path owner repo branch (parent_path path)))"
    and "requests w (full_path owner repo branch (parent_path path)) = None"
  shows "\<exists>w1. getRawUrl_start owner repo branch path w = (Awaiting (length (listings w)), w1)
          \<and> getRawUrl_start owner repo branch path' w1 = (Awaiting (length (listings w)), w1)
          \<and> listings w1 = listings w @ [GetContents owner repo branch (parent_path path)]
          \<and> requests w1 (full_path owner repo branch (parent_path path)) = Some (length (listings w))"
proof -
  let ?n = "length (listings w)"
  let ?d = "full_path owner repo branch (parent_path path)"
  let ?w1 = "w\<lparr>paths := (if marker_expired (clock w) (paths w ?d) then (paths w)(?d := None) else paths w),
              requests := (requests w)(?d \<mapsto> ?n),
              listings := listings w @ [GetContents owner repo branch (parent_path path)]\<rparr>"
  have s1: "getRawUrl_start owner repo branch path w = (Awaiting ?n, ?w1)"
    by (rule start_cold [OF assms(2) assms(4) assms(5) refl])
  have nm: "\<not> marker_truthy (paths ?w1 ?d)"
    using assms(4) by (auto simp: marker_truthy_def marker_expired_def split: option.splits)
  have s2: "getRawUrl_start owner repo branch path' ?w1 = (Awaiting ?n, ?w1)"
    by (rule start_join [where d = ?d]) (use assms(1,3) nm in simp_all)
  from s1 s2 show ?thesis by (intro exI [of _ ?w1]) simp
qed

section \<open>Properties of the attribute matcher\<close>

lemma lit_Some: "lit p s = Some r \<Longrightarrow> s = p @ r"
  by (auto simp: lit_def prefix_def split: if_splits)

lemma star_Some:
  "star P k s = Some (taken, r) \<Longrightarrow> \<exists>rest. s = taken @ rest \<and> k rest = Some r \<and> (\<forall>c \<in> set taken. P c)"
proof (induction s arbitrary: taken)
  case Nil
  then show ?case by auto
next
  case (Cons c cs)
  show ?case
  proof (cases "P c")
    case False
    with Cons.prems show ?thesis by auto
  next
    case True
    show ?thesis
    proof (cases "star P k cs")
      case None
      with True Cons.prems show ?thesis by auto
    next
      case (Some a)
      obtain t r' where a: "a = (t, r')" by (cases a)
      with Some True Cons.prems have tk: "taken = c # t" and r: "r' = r" by auto
      from Cons.IH [of t] Some a r obtain rest where
        "cs = t @ rest" "k rest = Some r" "\<forall>c \<in> set t. P c" by auto
      with tk True show ?thesis by auto
    qed
  qed
qed

lemma plus_Some:
  assumes "plus P k s = Some (taken, r)"
  shows "taken \<noteq> [] \<and> (\<exists>rest. s = taken @ rest \<and> k rest = Some r \<and> (\<forall>c \<in> set taken. P c))"
proof (cases s)
  case Nil
  with assms show ?thesis by simp
next
  case (Cons c cs)
  with assms have pc: "P c" by (auto split: if_splits)
  with assms Cons obtain t where st: "star P k cs = Some (t, r)" and tk: "taken = c # t"
    by (auto split: option.splits)
  from star_Some [OF st] obtain rest where
    "cs = t @ rest" "k rest = Some r" "\<forall>c \<in> set t. P c" by blast
  with tk pc Cons show ?thesis by auto
qed

lemma tag_end_Some: "tag_end s = Some r \<Longrightarrow> \<exists>t. s = t @ r"
proof -
  assume "tag_end s = Some r"
  then obtain taken where "star (\<lambda>c. c \<noteq> CHR ''>'') (lit ''>'') s = Some (taken, r)"
    by (auto simp: tag_end_def)
  from star_Some [OF this] obtain rest where "s = taken @ rest" "lit ''>'' rest = Some r" by blast
  then show ?thesis by (auto dest!: lit_Some)
qed

lemma quoted_Some:
  assumes "quoted q s = Some (v, rest)"
  shows "v \<noteq> [] \<and> q \<notin> set v \<and> (\<exists>t. s = q # v @ q # t @ rest)"
proof -
  let ?k = "\<lambda>w. case lit [q] w of None \<Rightarrow> None | Some x \<Rightarrow> tag_end x"
  from assms obtain u where u: "lit [q] s = Some u" and p: "plus (\<lambda>c. c \<noteq> q) ?k u = Some (v, rest)"
    by (auto simp: quoted_def split: option.splits)
  from plus_Some [OF p] obtain w where v: "v \<noteq> []" and w: "u = v @ w" and k: "?k w = Some rest"
    and nq: "\<forall>c \<in> set v. c \<noteq> q" by blast
  from k obtain x where x: "lit [q] w = Some x" and te: "tag_end x = Some rest"
    by (auto split: option.splits)
  from tag_end_Some [OF te] obtain t where "x = t @ rest" by blast
  with lit_Some [OF u] lit_Some [OF x] w have "s = q # v @ q # t @ rest" by simp
  with v nq show ?thesis by blast
qed

lemma src_attr_Some:
  assumes "src_attr s = Some (m, rest)"
  shows "\<exists>q v t. s = ''src='' @ q # v @ q # t @ rest \<and> v \<noteq> [] \<and> q \<notin> set v
           \<and> (m = (Some v, None) \<and> q = CHR 0x22 \<or> m = (None, Some v) \<and> q = CHR 0x27)"
proof -
  from assms obtain u where u: "lit ''src='' s = Some u"
    by (auto simp: src_attr_def split: option.splits)
  show ?thesis
  proof (cases "quoted (CHR 0x22) u")
    case (Some a)
    obtain v r where a: "a = (v, r)" by (cases a)
    with Some u assms have m: "m = (Some v, None)" "r = rest"
      by (auto simp: src_attr_def)
    from quoted_Some [of "CHR 0x22" u v rest] Some a m
    obtain t where "v \<noteq> []" "CHR 0x22 \<notin> set v" "u = CHR 0x22 # v @ CHR 0x22 # t @ rest" by auto
    with lit_Some [OF u] m show ?thesis by auto
  next
    case None
    with u assms obtain v where q: "quoted (CHR 0x27) u = Some (v, rest)" and m: "m = (None, Some v)"
      by (auto simp: src_attr_def split: option.splits)
    from quoted_Some [OF q]
    obtain t where "v \<noteq> []" "CHR 0x27 \<notin> set v" "u = CHR 0x27 # v @ CHR 0x27 # t @ rest" by auto
    with lit_Some [OF u] m show ?thesis by auto
  qed
qed

lemma regex_at_Some:
  assumes "regex_at s = Some (m, rest)"
  shows "\<exists>a q v t. s = ''<img '' @ a @ ''src='' @ q # v @ q # t @ rest \<and> v \<noteq> [] \<and> q \<notin> set v
           \<and> (m = (Some v, None) \<and> q = CHR 0x22 \<or> m = (None, Some v) \<and> q = CHR 0x27)"
proof -
  from assms obtain u taken where u: "lit ''<img '' s = Some u"
    and st: "star (\<lambda>c. c \<noteq> CHR ''>'') src_attr u = Some (taken, (m, rest))"
    by (auto simp: regex_at_def split: option.splits)
  from star_Some [OF st] obtain x where x: "u = taken @ x" "src_attr x = Some (m, rest)" by blast
  from src_attr_Some [OF x(2)] obtain q v t where
    "x = ''src='' @ q # v @ q # t @ rest" "v \<noteq> []" "q \<notin> set v"
    "m = (Some v, None) \<and> q = CHR 0x22 \<or> m = (None, Some v) \<and> q = CHR 0x27" by blast
  with lit_Some [OF u] x(1) show ?thesis by (intro exI [of _ taken] exI [of _ q] exI [of _ v] exI [of _ t]) simp
qed

lemma getImgSrcs_match:
  "m \<in> set (getImgSrcs s) \<Longrightarrow>
     \<exists>pre q v t. s = pre @ ''src='' @ q # v @ q # t \<and> v \<noteq> [] \<and> q \<notin> set v
           \<and> (m = (Some v, None) \<and> q = CHR 0x22 \<or> m = (None, Some v) \<and> q = CHR 0x27)"
proof (induction s rule: getImgSrcs.induct)
  case (1 s)
  show ?case
  proof (cases "regex_at s")
    case None
    show ?thesis
    proof (cases s)
      case Nil
      with None "1.prems" show ?thesis by (simp add: getImgSrcs.simps)
    next
      case (Cons c cs)
      with None "1.prems" have "m \<in> set (getImgSrcs cs)" by (simp add: getImgSrcs.simps)
      from "1.IH"(1) [OF None Cons this] obtain pre q v t where
        "cs = pre @ ''src='' @ q # v @ q # t" "v \<noteq> []" "q \<notin> set v"
        "m = (Some v, None) \<and> q = CHR 0x22 \<or> m = (None, Some v) \<and> q = CHR 0x27" by blast
      with Cons show ?thesis
        by (intro exI [of _ "c # pre"] exI [of _ q] exI [of _ v] exI [of _ t]) simp
    qed
  next
    case (Some a)
    obtain m' rest where a: "a = (m', rest)" by (cases a)
    from regex_at_Some [of s m' rest] Some a obtain x q v t where
      s: "s = ''<img '' @ x @ ''src='' @ q # v @ q # t @ rest" and v: "v \<noteq> []" "q \<notin> set v"
      and m': "m' = (Some v, None) \<and> q = CHR 0x22 \<or> m' = (None, Some v) \<and> q = CHR 0x27" by auto
    from "1.prems" Some a have "m = m' \<or> m \<in> set (getImgSrcs rest)" by (simp add: getImgSrcs.simps)
    then show ?thesis
    proof
      assume "m = m'"
      with s v m' show ?thesis
        by (intro exI [of _ "''<img '' @ x"] exI [of _ q] exI [of _ v] exI [of _ "t @ rest"]) simp
    next
      assume "m \<in> set (getImgSrcs rest)"
      from "1.IH"(2) [OF Some a [symmetric] this] obtain pre q' v' t' where
        r: "rest = pre @ ''src='' @ q' # v' @ q' # t'" and v': "v' \<noteq> []" "q' \<notin> set v'"
        "m = (Some v', None) \<and> q' = CHR 0x22 \<or> m = (None, Some v') \<and> q' = CHR 0x27" by blast
      from s r have "s = (''<img '' @ x @ ''src='' @ q # v @ q # t @ pre) @ ''src='' @ q' # v' @ q' # t'"
        by simp
      with v' show ?thesis by blast
    qed
  qed
qed

section \<open>Properties of the rewriting loops\<close>

lemma substitution_plain: "CHR ''$'' \<notin> set rep \<Longrightarrow> substitution m pre post rep = rep"
  by (induction m pre post rep rule: substitution.induct) auto

lemma match_quote_plain: "CHR ''$'' \<notin> set (match_quote m)"
  by (auto simp: match_quote_def DQ_def SQ_def split: option.splits)

text \<open>When an operation puts one thing for each value, the matches and the text decide the result.\<close>

lemma rewritten_unique:
  assumes "rewritten N ms h h1" and "rewritten N ms h h2"
    and f: "\<And>v r r'. N v r \<Longrightarrow> N v r' \<Longrightarrow> r = r'"
  shows "h1 = h2"
  using assms(1,2)
proof (induction arbitrary: h2 rule: rewritten.induct)
  case (finished h)
  then show ?case by (auto elim: rewritten.cases)
next
  case (kept m v ms h h')
  from kept.prems show ?case
  proof (cases rule: rewritten.cases)
    case (kept v')
    with kept.IH show ?thesis by blast
  next
    case (absent v' u)
    with kept.hyps f [of v None "Some u"] show ?thesis by simp
  next
    case (replaced v' u pre post)
    with kept.hyps f [of v None "Some u"] show ?thesis by simp
  qed
next
  case (absent m v u h ms h')
  from absent.prems show ?case
  proof (cases rule: rewritten.cases)
    case (kept v')
    with absent.hyps f [of v None "Some u"] show ?thesis by simp
  next
    case (absent v' u')
    with absent.IH show ?thesis by blast
  next
    case r: (replaced v' u' pre post)
    from r(1) absent.hyps(1) have "v' = v" by simp
    with absent.hyps(3) [rule_format, of pre post] r(3) show ?thesis by simp
  qed
next
  case (replaced m v u h pre post ms h')
  from replaced.prems show ?case
  proof (cases rule: rewritten.cases)
    case (kept v')
    with replaced.hyps f [of v None "Some u"] show ?thesis by simp
  next
    case a: (absent v' u')
    from a(1) replaced.hyps(1) have "v' = v" by simp
    with a(3) [rule_format, of pre post] replaced.hyps(3) show ?thesis by simp
  next
    case r: (replaced v' u' pre' post')
    from r(1) replaced.hyps(1) have v': "v' = v" by simp
    from r(2) replaced.hyps(2) v' f [of v "Some u" "Some u'"] have u': "u' = u" by simp
    from replaced.hyps(4) [rule_format, of pre' post'] r(3) v'
    have "length pre \<le> length pre'" by simp
    moreover from r(4) [rule_format, of pre post] replaced.hyps(3) v'
    have "length pre' \<le> length pre" by simp
    ultimately have "length pre = length pre'" by simp
    with replaced.hyps(3) r(3) v' have "pre' = pre" "post' = post" by auto
    with r(5) v' u' replaced.IH show ?thesis by simp
  qed
qed

lemma replace_step:
  assumes v: "match_src m = Some v" and n: "N v (Some u)"
    and r: "rewritten N ms (replace h (src_text (match_quote m) v) (src_text (match_quote m) u)) h'"
  shows "rewritten N (m # ms) h h'"
proof (cases "split_first (src_text (match_quote m) v) h")
  case None
  then have "\<forall>pre post. h \<noteq> pre @ src_text (match_quote m) v @ post"
    by (blast dest: split_first_None)
  moreover from None r have "rewritten N ms h h'" by (simp add: replace_def)
  ultimately show ?thesis using v n by (blast intro: absent)
next
  case (Some a)
  obtain pre post where a: "a = (pre, post)" by (cases a)
  let ?pat = "src_text (match_quote m) v"
  let ?new = "substitution ?pat pre post (src_text (match_quote m) u)"
  from Some a have h: "h = pre @ ?pat @ post" by (auto dest: split_first_Some)
  have least: "\<forall>pre' post'. h = pre' @ ?pat @ post' \<longrightarrow> length pre \<le> length pre'"
    using split_first_least [of ?pat h pre post] Some a by auto
  from r Some a have "rewritten N ms (pre @ ?new @ post) h'" by (simp add: replace_def)
  from replaced [OF v n h least this] show ?thesis .
qed

lemma for_each_rewritten:
  assumes "\<And>m h. m \<in> set ms \<Longrightarrow>
     \<exists>v. match_src m = Some v
        \<and> (N v None \<and> f m h = Inr h
           \<or> (\<exists>u. N v (Some u)
                \<and> f m h = Inr (replace h (src_text (match_quote m) v) (src_text (match_quote m) u))))"
  shows "\<exists>h'. for_each f ms h = Inr h' \<and> rewritten N ms h h'"
  using assms
proof (induction ms arbitrary: h)
  case Nil
  show ?case by (auto intro: finished)
next
  case (Cons m ms)
  from Cons.prems [of m h] obtain v where v: "match_src m = Some v"
    and c: "N v None \<and> f m h = Inr h
           \<or> (\<exists>u. N v (Some u)
                \<and> f m h = Inr (replace h (src_text (match_quote m) v) (src_text (match_quote m) u)))"
    by auto
  have ih: "\<exists>h'. for_each f ms h1 = Inr h' \<and> rewritten N ms h1 h'" for h1
    by (rule Cons.IH) (use Cons.prems in auto)
  from c show ?case
  proof
    assume a: "N v None \<and> f m h = Inr h"
    from ih [of h] obtain h' where "for_each f ms h = Inr h'" "rewritten N ms h h'" by blast
    with a v show ?thesis by (auto intro: kept)
  next
    assume "\<exists>u. N v (Some u)
                \<and> f m h = Inr (replace h (src_text (match_quote m) v) (src_text (match_quote m) u))"
    then obtain u where n: "N v (Some u)"
      and f: "f m h = Inr (replace h (src_text (match_quote m) v) (src_text (match_quote m) u))"
      by blast
    from ih [of "replace h (src_text (match_quote m) v) (src_text (match_quote m) u)"]
    obtain h' where
      fe: "for_each f ms (replace h (src_text (match_quote m) v) (src_text (match_quote m) u)) = Inr h'"
      and rw: "rewritten N ms (replace h (src_text (match_quote m) v) (src_text (match_quote m) u)) h'"
      by blast
    from replace_step [OF v n rw] f fe show ?thesis by simp
  qed
qed

lemma loop_rewritten:
  assumes "\<forall>m \<in> set ms. \<exists>v. match_src m = Some v"
    and "\<And>v. \<not> is_relative v \<Longrightarrow> N v None"
    and "\<And>v w res w1. is_relative v \<Longrightarrow> getRawUrl env owner repo branch v isPrivate w = (Inr res, w1) \<Longrightarrow>
           (case res of None \<Rightarrow> N v None | Some u \<Rightarrow> if u \<noteq> [] then N v (Some u) else N v None)"
    and "relativeToRawUrls_loop env owner repo branch isPrivate ms h w = (Inr h', w')"
  shows "rewritten N ms h h'"
  using assms(1,4)
proof (induction ms arbitrary: h w)
  case Nil
  then show ?case by (auto intro: finished)
next
  case (Cons m ms)
  from Cons.prems(1) obtain v where v: "match_src m = Some v" by auto
  from Cons.prems(1) have rest: "\<forall>m \<in> set ms. \<exists>v. match_src m = Some v" by simp
  show ?case
  proof (cases "is_relative v")
    case False
    with v Cons.prems(2) have "relativeToRawUrls_loop env owner repo branch isPrivate ms h w = (Inr h', w')"
      by simp
    from Cons.IH [OF rest this] v assms(2) [OF False] show ?thesis by (blast intro: kept)
  next
    case True
    obtain res w1 where g: "getRawUrl env owner repo branch v isPrivate w = (res, w1)"
      by (cases "getRawUrl env owner repo branch v isPrivate w")
    show ?thesis
    proof (cases res)
      case (Inl e)
      with True v g Cons.prems(2) show ?thesis by simp
    next
      case (Inr rawUrl)
      note n = assms(3) [OF True g [unfolded Inr]]
      show ?thesis
      proof (cases rawUrl)
        case None
        with Inr True v g Cons.prems(2)
        have "relativeToRawUrls_loop env owner repo branch isPrivate ms h w1 = (Inr h', w')" by simp
        from Cons.IH [OF rest this] v n None show ?thesis by (auto intro: kept)
      next
        case (Some u)
        show ?thesis
        proof (cases "u = []")
          case True
          with Some Inr \<open>is_relative v\<close> v g Cons.prems(2)
          have "relativeToRawUrls_loop env owner repo branch isPrivate ms h w1 = (Inr h', w')" by simp
          from Cons.IH [OF rest this] v n Some True show ?thesis by (auto intro: kept)
        next
          case False
          with Some Inr True v g Cons.prems(2)
          have "relativeToRawUrls_loop env owner repo branch isPrivate ms
                  (replace h (src_text (match_quote m) v) (src_text (match_quote m) u)) w1 = (Inr h', w')"
            by simp
          from Cons.IH [OF rest this] have
            "rewritten N ms (replace h (src_text (match_quote m) v) (src_text (match_quote m) u)) h'" .
          moreover from n Some False have "N v (Some u)" by simp
          ultimately show ?thesis using v by (blast intro: replace_step)
        qed
      qed
    qed
  qed
qed

lemma loop_public_total:
  assumes "\<forall>m \<in> set ms. \<exists>v. match_src m = Some v"
  shows "\<exists>h'. relativeToRawUrls_loop env owner repo branch False ms h w = (Inr h', w)"
  using assms
proof (induction ms arbitrary: h)
  case Nil
  show ?case by simp
next
  case (Cons m ms)
  from Cons.prems obtain v where v: "match_src m = Some v" by auto
  from Cons.prems have rest: "\<forall>m \<in> set ms. \<exists>v. match_src m = Some v" by simp
  show ?case
    using Cons.IH [OF rest] v by (simp add: getRawUrl_def raw_prefix_def raw_host_def)
qed

lemma matches_have_src: "\<forall>m \<in> set (getImgSrcs html). \<exists>v. match_src m = Some v"
proof
  fix m assume "m \<in> set (getImgSrcs html)"
  from getImgSrcs_match [OF this] obtain v where "v \<noteq> []"
    "m = (Some v, None) \<or> m = (None, Some v)" by blast
  then show "\<exists>v. match_src m = Some v" by (auto simp: match_src_def)
qed

lemma replace_prefix_plain:
  assumes "prefix f v" and "CHR ''$'' \<notin> set t"
  shows "replace v f t = t @ drop (length f) v"
  using assms by (simp add: replace_def split_first_prefix substitution_plain)

lemma src_text_plain:
  "CHR ''$'' \<notin> set u \<Longrightarrow>
     substitution pat pre post (src_text (match_quote m) u) = src_text (match_quote m) u"
  using match_quote_plain [of m] by (auto simp: src_text_def intro!: substitution_plain)

lemma public_rewritten:
  "\<exists>h. relativeToRawUrls env owner repo branch html False w = (Inr h, w)
        \<and> rewritten (\<lambda>v r. r = (if is_relative v then Some (raw_prefix owner repo branch @ v) else None))
            (getImgSrcs html) html h"
proof -
  note src = matches_have_src [of html]
  let ?pub = "\<lambda>v r. r = (if is_relative v then Some (raw_prefix owner repo branch @ v) else None)"
  from loop_public_total [OF src, of env owner repo branch html w] obtain h where
    h: "relativeToRawUrls_loop env owner repo branch False (getImgSrcs html) html w = (Inr h, w)"
    by blast
  have "rewritten ?pub (getImgSrcs html) html h"
  proof (rule loop_rewritten [OF src _ _ h])
    fix v assume "\<not> is_relative v"
    then show "None = (if is_relative v then Some (raw_prefix owner repo branch @ v) else None)"
      by simp
  next
    fix v w res w1
    assume "is_relative v" "getRawUrl env owner repo branch v False w = (Inr res, w1)"
    then show "case res of
        None \<Rightarrow> None = (if is_relative v then Some (raw_prefix owner repo branch @ v) else None)
      | Some u \<Rightarrow> if u \<noteq> []
          then Some u = (if is_relative v then Some (raw_prefix owner repo branch @ v) else None)
          else None = (if is_relative v then Some (raw_prefix owner repo branch @ v) else None)"
      by (auto simp: getRawUrl_def raw_prefix_def raw_host_def)
  qed
  with h show ?thesis by (auto simp: relativeToRawUrls_def)
qed

lemma private_rewritten:
  assumes "relativeToRawUrls env owner repo branch html True w = (Inr html', w')"
  shows "rewritten (\<lambda>v r. if is_relative v then r = None \<or> (\<exists>u. r = Some u \<and> u \<noteq> []) else r = None)
          (getImgSrcs html) html html'"
proof -
  from assms
  have l: "relativeToRawUrls_loop env owner repo branch True (getImgSrcs html) html w = (Inr html', w')"
    by (simp add: relativeToRawUrls_def)
  show ?thesis
    by (rule loop_rewritten [OF matches_have_src _ _ l]) (auto split: option.splits)
qed

lemma rawToRelativeUrls_rewritten:
  "\<exists>h. rawToRelativeUrls owner repo branch html = Inr h
        \<and> rewritten (\<lambda>v r. r = (if startsWith v raw_host
                                 then Some (getRelativeUrl owner repo branch v) else None))
            (getImgSrcs html) html h"
  unfolding rawToRelativeUrls_def
proof (rule for_each_rewritten)
  fix m h assume "m \<in> set (getImgSrcs html)"
  with matches_have_src obtain v where v: "match_src m = Some v" by blast
  show "\<exists>v. match_src m = Some v
      \<and> (None = (if startsWith v raw_host then Some (getRelativeUrl owner repo branch v) else None)
           \<and> rawToRelativeUrls_step owner repo branch m h = Inr h
         \<or> (\<exists>u. Some u = (if startsWith v raw_host then Some (getRelativeUrl owner repo branch v) else None)
              \<and> rawToRelativeUrls_step owner repo branch m h
                 = Inr (replace h (src_text (match_quote m) v) (src_text (match_quote m) u))))"
    using v by (auto simp: rawToRelativeUrls_step_def getRelativeUrl_def Let_def)
qed

lemma htmlSwapPrefix_rewritten:
  "\<exists>h. htmlSwapPrefix (Some html) (Some from) (Some to) = Inr (Some h)
        \<and> rewritten (\<lambda>v r. r = (if has_prefix v from \<and> \<not> startsWith v ''http://''
                                    \<and> \<not> startsWith v ''https://'' \<and> \<not> startsWith v ''data:image/''
                                 then Some (replace v from to) else None))
            (getImgSrcs html) html h"
proof -
  let ?N = "\<lambda>v r. r = (if has_prefix v from \<and> \<not> startsWith v ''http://''
                                    \<and> \<not> startsWith v ''https://'' \<and> \<not> startsWith v ''data:image/''
                                 then Some (replace v from to) else None)"
  have "\<exists>h. for_each (htmlSwapPrefix_step from to) (getImgSrcs html) html = Inr h
        \<and> rewritten ?N (getImgSrcs html) html h"
  proof (rule for_each_rewritten)
    fix m h assume "m \<in> set (getImgSrcs html)"
    with matches_have_src obtain v where v: "match_src m = Some v" by blast
    show "\<exists>v. match_src m = Some v
        \<and> (?N v None \<and> htmlSwapPrefix_step from to m h = Inr h
           \<or> (\<exists>u. ?N v (Some u)
                \<and> htmlSwapPrefix_step from to m h
                   = Inr (replace h (src_text (match_quote m) v) (src_text (match_quote m) u))))"
      using v by (auto simp: htmlSwapPrefix_step_def Let_def)
  qed
  then obtain hs where hs: "for_each (htmlSwapPrefix_step from to) (getImgSrcs html) html = Inr hs"
    and rs: "rewritten ?N (getImgSrcs html) html hs"
    by blast
  from hs have "htmlSwapPrefix (Some html) (Some from) (Some to) = Inr (Some hs)"
    by (simp add: htmlSwapPrefix_def)
  with rs show ?thesis by blast
qed

lemma removePrefix_rewritten:
  "\<exists>h. removePrefix (Some html) pfx = Inr h
        \<and> rewritten (\<lambda>v r. r = (if startsWith v (toString pfx)
                                    \<and> \<not> (pfx = Some ''/'' \<and> startsWith v ''//'')
                                 then Some (drop (length (toString pfx)) v) else None))
            (getImgSrcs html) html h"
  unfolding removePrefix_def option.case
proof (rule for_each_rewritten)
  fix m h assume "m \<in> set (getImgSrcs html)"
  with matches_have_src obtain v where v: "match_src m = Some v" by blast
  have "startsWith v (toString pfx) \<Longrightarrow> replace v (toString pfx) [] = drop (length (toString pfx)) v"
    by (simp add: startsWith_def replace_prefix_Nil)
  with v show "\<exists>v. match_src m = Some v
      \<and> (None = (if startsWith v (toString pfx) \<and> \<not> (pfx = Some ''/'' \<and> startsWith v ''//'')
                 then Some (drop (length (toString pfx)) v) else None)
           \<and> removePrefix_step pfx m h = Inr h
         \<or> (\<exists>u. Some u = (if startsWith v (toString pfx) \<and> \<not> (pfx = Some ''/'' \<and> startsWith v ''//'')
                           then Some (drop (length (toString pfx)) v) else None)
              \<and> removePrefix_step pfx m h
                 = Inr (replace h (src_text (match_quote m) v) (src_text (match_quote m) u))))"
    by (auto simp: removePrefix_step_def Let_def)
qed

lemma addPrefix_rewritten:
  "\<exists>h. addPrefix (Some html) pfx = Inr h
        \<and> rewritten (\<lambda>v r. r = (if is_relative v then Some (toString pfx @ v) else None))
            (getImgSrcs html) html h"
  unfolding addPrefix_def option.case
proof (rule for_each_rewritten)
  fix m h assume "m \<in> set (getImgSrcs html)"
  with matches_have_src obtain v where v: "match_src m = Some v" by blast
  then show "\<exists>v. match_src m = Some v
      \<and> (None = (if is_relative v then Some (toString pfx @ v) else None)
           \<and> addPrefix_step pfx m h = Inr h
         \<or> (\<exists>u. Some u = (if is_relative v then Some (toString pfx @ v) else None)
              \<and> addPrefix_step pfx m h
                 = Inr (replace h (src_text (match_quote m) v) (src_text (match_quote m) u))))"
    by (auto simp: addPrefix_step_def)
qed

section \<open>Properties of tags without a source value\<close>

lemma prefix_src_cases:
  assumes "prefix ''src='' (y @ CHR ''>'' # B)"
  shows "\<exists>w. y = ''src='' @ w"
proof -
  from assms have "prefix ''src='' y \<or> (\<exists>z. ''src='' = y @ z \<and> prefix z (CHR ''>'' # B))"
    by (simp add: prefix_append)
  then show ?thesis
  proof
    assume "prefix ''src='' y"
    then show ?thesis by (auto simp: prefix_def)
  next
    assume "\<exists>z. ''src='' = y @ z \<and> prefix z (CHR ''>'' # B)"
    then obtain z where z: "''src='' = y @ z" "prefix z (CHR ''>'' # B)" by blast
    show ?thesis
    proof (cases z)
      case Nil
      with z show ?thesis by simp
    next
      case (Cons c cs)
      with z(2) have "c = CHR ''>''" by simp
      with Cons have "CHR ''>'' \<in> set (y @ z)" by simp
      then have "CHR ''>'' \<in> set ''src=''" by (simp only: z(1) [symmetric])
      then show ?thesis by simp
    qed
  qed
qed



lemma tag_no_pattern:
  assumes T: "sourceless_tag T" and split: "T = us @ us'" and ne: "us' \<noteq> []"
    and v: "v \<noteq> []" "q \<notin> set v" and q: "q = CHR 0x22 \<or> q = CHR 0x27"
  shows "\<not> prefix (''src='' @ q # v @ [q]) (us' @ B)"
proof
  assume p: "prefix (''src='' @ q # v @ [q]) (us' @ B)"
  from T obtain attrs where attrs: "T = ''<img '' @ attrs @ ''>''" "CHR ''>'' \<notin> set attrs"
    and occ: "\<forall>u w. attrs = u @ ''src='' @ w \<longrightarrow>
              (prefix DQ w \<longrightarrow> prefix (DQ @ DQ) w) \<and> (prefix SQ w \<longrightarrow> prefix (SQ @ SQ) w)"
    unfolding sourceless_tag_def by blast
  from ne obtain c cs where us': "us' = c # cs" by (cases us') auto
  with p have c: "c = CHR ''s''" by simp
  from split attrs(1) have "us @ us' = ''<img '' @ (attrs @ ''>'')" by simp
  then obtain x where "us = ''<img '' @ x \<and> x @ us' = attrs @ ''>''
      \<or> us @ x = ''<img '' \<and> us' = x @ attrs @ ''>''"
    unfolding append_eq_append_conv2 by blast
  then have "\<exists>x. x @ us' = attrs @ ''>''"
  proof
    assume "us = ''<img '' @ x \<and> x @ us' = attrs @ ''>''"
    then show ?thesis by blast
  next
    assume a: "us @ x = ''<img '' \<and> us' = x @ attrs @ ''>''"
    show ?thesis
    proof (cases x)
      case Nil
      with a show ?thesis by (intro exI [of _ "[]"]) simp
    next
      case (Cons d ds)
      with a us' c have "d = CHR ''s''" by simp
      with Cons have "CHR ''s'' \<in> set (us @ x)" by simp
      with a have "CHR ''s'' \<in> set ''<img ''" by simp
      then show ?thesis by simp
    qed
  qed
  then obtain x where "x @ us' = attrs @ ''>''" by blast
  then obtain y where "x = attrs @ y \<and> y @ us' = ''>'' \<or> x @ y = attrs \<and> us' = y @ ''>''"
    unfolding append_eq_append_conv2 by blast
  then have "\<exists>x y. attrs = x @ y \<and> us' = y @ ''>''"
  proof
    assume a: "x = attrs @ y \<and> y @ us' = ''>''"
    with us' have "y = []" "us' = ''>''" by (auto simp: append_eq_Cons_conv)
    then show ?thesis by (intro exI [of _ attrs] exI [of _ "[]"]) simp
  next
    assume "x @ y = attrs \<and> us' = y @ ''>''"
    then show ?thesis by blast
  qed
  then obtain x y where xy: "attrs = x @ y" "us' = y @ ''>''" by blast
  with p have "prefix ''src='' (y @ CHR ''>'' # B)"
    by (auto simp: prefix_def)
  from prefix_src_cases [OF this] obtain w where w: "y = ''src='' @ w" by blast
  with xy occ have o: "(prefix DQ w \<longrightarrow> prefix (DQ @ DQ) w) \<and> (prefix SQ w \<longrightarrow> prefix (SQ @ SQ) w)"
    by blast
  from p xy(2) w have pw: "prefix (q # v @ [q]) (w @ CHR ''>'' # B)" by simp
  have "prefix [q] w"
  proof (cases w)
    case Nil
    with pw q show ?thesis by auto
  next
    case (Cons e w')
    with pw show ?thesis by simp
  qed
  with o q have "prefix [q, q] w" by (auto simp: DQ_def SQ_def)
  then obtain w' where "w = q # q # w'" by (auto simp: prefix_def)
  with pw v show False by (cases v) auto
qed

lemma tag_not_matched:
  assumes "sourceless_tag T"
  shows "regex_at (T @ B) = None"
proof (cases "regex_at (T @ B)")
  case None
  then show ?thesis .
next
  case (Some a)
  obtain m rest where a: "a = (m, rest)" by (cases a)
  from Some a obtain u taken where u: "lit ''<img '' (T @ B) = Some u"
    and st: "star (\<lambda>c. c \<noteq> CHR ''>'') src_attr u = Some (taken, (m, rest))"
    by (auto simp: regex_at_def split: option.splits)
  from star_Some [OF st] obtain x where x: "u = taken @ x" "src_attr x = Some (m, rest)"
    and tk: "\<forall>c \<in> set taken. c \<noteq> CHR ''>''" by blast
  from src_attr_Some [OF x(2)] obtain q v t where
    xs: "x = ''src='' @ q # v @ q # t @ rest" and v: "v \<noteq> []" "q \<notin> set v"
    and q: "q = CHR 0x22 \<or> q = CHR 0x27" by blast
  from assms obtain attrs where attrs: "T = ''<img '' @ attrs @ ''>''" "CHR ''>'' \<notin> set attrs"
    unfolding sourceless_tag_def by blast
  from lit_Some [OF u] attrs(1) x(1) have eq: "attrs @ (''>'' @ B) = taken @ x" by simp
  then obtain y where "attrs = taken @ y \<and> y @ ''>'' @ B = x \<or> attrs @ y = taken \<and> ''>'' @ B = y @ x"
    unfolding append_eq_append_conv2 by blast
  then have "\<exists>y. attrs = taken @ y \<and> y @ ''>'' @ B = x"
  proof
    assume "attrs = taken @ y \<and> y @ ''>'' @ B = x"
    then show ?thesis by blast
  next
    assume a: "attrs @ y = taken \<and> ''>'' @ B = y @ x"
    show ?thesis
    proof (cases y)
      case Nil
      with a xs show ?thesis by simp
    next
      case (Cons d ds)
      with a have "d = CHR ''>''" by simp
      with Cons a have "CHR ''>'' \<in> set taken" by auto
      with tk show ?thesis by blast
    qed
  qed
  then obtain y where y: "attrs = taken @ y" "y @ ''>'' @ B = x" by blast
  have "T = (''<img '' @ taken) @ (y @ ''>'')" using attrs(1) y(1) by simp
  from tag_no_pattern [OF assms this _ v q, of B] y(2) xs
  show ?thesis by (simp add: prefix_def)
qed

lemma no_overlap:
  assumes T: "sourceless_tag T" and v: "v \<noteq> []" "q \<notin> set v" and q: "q = CHR 0x22 \<or> q = CHR 0x27"
    and n: "\<not> sublist ''<img '' v"
    and eq: "A @ T @ B = pre @ (''src='' @ q # v @ [q]) @ post"
  shows "(\<exists>A2. A = pre @ (''src='' @ q # v @ [q]) @ A2 \<and> post = A2 @ T @ B)
       \<or> (\<exists>B1. pre = A @ T @ B1 \<and> B = B1 @ (''src='' @ q # v @ [q]) @ post)"
proof -
  let ?pat = "''src='' @ q # v @ [q]"
  from T obtain attrs where attrs: "T = ''<img '' @ attrs @ ''>''"
    unfolding sourceless_tag_def by blast
  from eq obtain x where "A = pre @ x \<and> x @ T @ B = ?pat @ post \<or> A @ x = pre \<and> T @ B = x @ ?pat @ post"
    unfolding append_eq_append_conv2 by blast
  then show ?thesis
  proof
    assume a: "A @ x = pre \<and> T @ B = x @ ?pat @ post"
    then obtain y where "T = x @ y \<and> y @ B = ?pat @ post \<or> T @ y = x \<and> B = y @ ?pat @ post"
      unfolding append_eq_append_conv2 by blast
    then show ?thesis
    proof
      assume b: "T = x @ y \<and> y @ B = ?pat @ post"
      show ?thesis
      proof (cases "y = []")
        case True
        with a b have "pre = A @ T @ []" "B = [] @ ?pat @ post" by simp_all
        then show ?thesis by blast
      next
        case False
        from b have "prefix ?pat (y @ B)" by (simp add: prefix_def)
        with tag_no_pattern [OF T _ False v q, of x B] b show ?thesis by blast
      qed
    next
      assume "T @ y = x \<and> B = y @ ?pat @ post"
      with a have "pre = A @ T @ y" "B = y @ ?pat @ post" by auto
      then show ?thesis by blast
    qed
  next
    assume a: "A = pre @ x \<and> x @ T @ B = ?pat @ post"
    then obtain z where "x = ?pat @ z \<and> z @ T @ B = post \<or> x @ z = ?pat \<and> T @ B = z @ post"
      unfolding append_eq_append_conv2 by blast
    then show ?thesis
    proof
      assume "x = ?pat @ z \<and> z @ T @ B = post"
      with a have "A = pre @ ?pat @ z" "post = z @ T @ B" by auto
      then show ?thesis by blast
    next
      assume b: "x @ z = ?pat \<and> T @ B = z @ post"
      show ?thesis
      proof (cases "z = []")
        case True
        with a b have "A = pre @ ?pat @ []" "post = [] @ T @ B" by simp_all
        then show ?thesis by blast
      next
        case False
        from b have "x @ z = (''src='' @ q # v) @ [q]" by simp
        with False obtain z0 where z0: "z = z0 @ [q]" "x @ z0 = ''src='' @ q # v"
          by (cases z rule: rev_cases) auto
        from b attrs z0 have "(z0 @ [q]) @ post = ''<img '' @ (attrs @ ''>'' @ B)" by simp
        then obtain y where "z0 @ [q] = ''<img '' @ y \<or> (z0 @ [q]) @ y = ''<img ''"
          unfolding append_eq_append_conv2 by blast
        then have "\<exists>y. z0 @ [q] = ''<img '' @ y"
        proof
          assume "z0 @ [q] = ''<img '' @ y"
          then show ?thesis by blast
        next
          assume "(z0 @ [q]) @ y = ''<img ''"
          then have "q \<in> set ''<img ''" by (metis in_set_conv_decomp append.assoc append_Cons append_Nil)
          with q show ?thesis by auto
        qed
        then obtain y where y: "z0 @ [q] = ''<img '' @ y" by blast
        have "y \<noteq> []"
        proof
          assume "y = []"
          with y have "z0 @ [q] = ''<img''  @ [CHR '' '']" by simp
          then have "q = CHR '' ''" by (simp only: append1_eq_conv)
          with q show False by auto
        qed
        with y obtain y0 where y0: "y = y0 @ [q]" "z0 = ''<img '' @ y0"
          by (cases y rule: rev_cases) auto
        with z0 have "x @ (''<img '' @ y0) = (''src='' @ [q]) @ v" by simp
        then obtain u where "x = (''src='' @ [q]) @ u \<and> u @ ''<img '' @ y0 = v
            \<or> x @ u = ''src='' @ [q] \<and> ''<img '' @ y0 = u @ v"
          unfolding append_eq_append_conv2 by blast
        then have "sublist ''<img '' v"
        proof
          assume "x = (''src='' @ [q]) @ u \<and> u @ ''<img '' @ y0 = v"
          then have "v = u @ ''<img '' @ y0" by simp
          then show ?thesis unfolding sublist_def by blast
        next
          assume c: "x @ u = ''src='' @ [q] \<and> ''<img '' @ y0 = u @ v"
          show ?thesis
          proof (cases u)
            case Nil
            with c have "v = [] @ ''<img '' @ y0" by simp
            then show ?thesis unfolding sublist_def by blast
          next
            case (Cons d ds)
            with c have "d = CHR ''<''" by simp
            with Cons have "CHR ''<'' \<in> set (x @ u)" by simp
            with c have "CHR ''<'' \<in> set (''src='' @ [q])" by simp
            with q show ?thesis by auto
          qed
        qed
        with n show ?thesis by blast
      qed
    qed
  qed
qed

lemma around_refl: "around ms A B A B"
  by (induction ms) (auto intro: stop skip)

lemma match_shape:
  assumes "m \<in> set (getImgSrcs html)" and "match_src m = Some v"
  shows "\<exists>q. match_quote m = [q] \<and> (q = CHR 0x22 \<or> q = CHR 0x27) \<and> v \<noteq> [] \<and> q \<notin> set v"
proof -
  from getImgSrcs_match [OF assms(1)] obtain q v' where v': "v' \<noteq> []" "q \<notin> set v'"
    and m: "m = (Some v', None) \<and> q = CHR 0x22 \<or> m = (None, Some v') \<and> q = CHR 0x27" by blast
  from m v' assms(2) have "v = v'" by (auto simp: match_src_def)
  moreover from m v' have "match_quote m = [q]" by (auto simp: match_quote_def DQ_def SQ_def)
  ultimately show ?thesis using m v' by blast
qed

lemma rewritten_keeps_tag:
  assumes "rewritten N ms h h'" and T: "sourceless_tag T"
  shows "h = A @ T @ B \<Longrightarrow>
     (\<forall>m \<in> set ms. \<forall>v. match_src m = Some v \<longrightarrow>
        (\<exists>q. match_quote m = [q] \<and> (q = CHR 0x22 \<or> q = CHR 0x27) \<and> v \<noteq> [] \<and> q \<notin> set v
             \<and> \<not> sublist ''<img '' v)) \<Longrightarrow>
     \<exists>A' B'. h' = A' @ T @ B' \<and> around ms A B A' B'"
  using assms(1)
proof (induction arbitrary: A B rule: rewritten.induct)
  case (finished h)
  then show ?case by (blast intro: stop)
next
  case (kept m v ms h h')
  from kept.IH [OF kept.prems(1)] kept.prems(2)
  obtain A' B' where "h' = A' @ T @ B'" "around ms A B A' B'" by auto
  then show ?case by (blast intro: skip)
next
  case (absent m v u h ms h')
  from absent.IH [OF absent.prems(1)] absent.prems(2)
  obtain A' B' where "h' = A' @ T @ B'" "around ms A B A' B'" by auto
  then show ?case by (blast intro: skip)
next
  case (replaced m v u h pre post ms h')
  let ?new = "substitution (src_text (match_quote m) v) pre post (src_text (match_quote m) u)"
  from replaced.prems(2) replaced.hyps(1) obtain q where q: "match_quote m = [q]"
    "q = CHR 0x22 \<or> q = CHR 0x27" and v: "v \<noteq> []" "q \<notin> set v" "\<not> sublist ''<img '' v"
    by auto
  from replaced.prems(2) have rest: "\<forall>m \<in> set ms. \<forall>v. match_src m = Some v \<longrightarrow>
        (\<exists>q. match_quote m = [q] \<and> (q = CHR 0x22 \<or> q = CHR 0x27) \<and> v \<noteq> [] \<and> q \<notin> set v
             \<and> \<not> sublist ''<img '' v)" by simp
  have pat: "src_text (match_quote m) v = ''src='' @ q # v @ [q]"
    by (simp add: src_text_def q(1))
  from replaced.hyps(3) replaced.prems(1) pat
  have "A @ T @ B = pre @ (''src='' @ q # v @ [q]) @ post" by simp
  from no_overlap [OF T v(1,2) q(2) v(3) this]
  show ?case
  proof
    assume "\<exists>A2. A = pre @ (''src='' @ q # v @ [q]) @ A2 \<and> post = A2 @ T @ B"
    then obtain A2 where A: "A = pre @ src_text (match_quote m) v @ A2" and p: "post = A2 @ T @ B"
      using pat by auto
    from p have "pre @ ?new @ post = (pre @ ?new @ A2) @ T @ B" by simp
    from replaced.IH [OF this rest] obtain A' B' where
      h': "h' = A' @ T @ B'" and ar: "around ms (pre @ ?new @ A2) B A' B'" by blast
    from before [OF replaced.hyps(1) ar] A have "around (m # ms) A B A' B'" by simp
    with h' show ?thesis by blast
  next
    assume "\<exists>B1. pre = A @ T @ B1 \<and> B = B1 @ (''src='' @ q # v @ [q]) @ post"
    then obtain B1 where p: "pre = A @ T @ B1" and B: "B = B1 @ src_text (match_quote m) v @ post"
      using pat by auto
    from p have "pre @ ?new @ post = A @ T @ (B1 @ ?new @ post)" by simp
    from replaced.IH [OF this rest] obtain A' B' where
      h': "h' = A' @ T @ B'" and ar: "around ms A (B1 @ ?new @ post) A' B'" by blast
    from after [OF replaced.hyps(1) ar] B have "around (m # ms) A B A' B'" by simp
    with h' show ?thesis by blast
  qed
qed

lemma empty_src_sourceless:
  "sourceless_tag (''<img src='' @ DQ @ DQ @ ''>'')"
  "sourceless_tag (''<img src='' @ SQ @ SQ @ ''>'')"
proof -
  have "(prefix DQ w \<longrightarrow> prefix (DQ @ DQ) w) \<and> (prefix SQ w \<longrightarrow> prefix (SQ @ SQ) w)"
    if "''src='' @ q @ q = u @ ''src='' @ w" "q = DQ \<or> q = SQ" for u w q
  proof (cases u)
    case Nil
    with that show ?thesis by (auto simp: DQ_def SQ_def)
  next
    case (Cons c cs)
    with that have "length (''src='' @ q @ q) = length (u @ ''src='' @ w)" by simp
    with that(2) have l: "length u + length w = 2" by (auto simp: DQ_def SQ_def)
    from that Cons l show ?thesis
      by (auto simp: DQ_def SQ_def append_eq_Cons_conv Cons_eq_append_conv)
  qed
  note occ = this
  show "sourceless_tag (''<img src='' @ DQ @ DQ @ ''>'')"
    unfolding sourceless_tag_def
    by (rule exI [of _ "''src='' @ DQ @ DQ"]) (use occ [of DQ] in \<open>simp add: DQ_def\<close>)
  show "sourceless_tag (''<img src='' @ SQ @ SQ @ ''>'')"
    unfolding sourceless_tag_def
    by (rule exI [of _ "''src='' @ SQ @ SQ"]) (use occ [of SQ] in \<open>simp add: SQ_def\<close>)
qed

section \<open>\<open>getRelativeUrl\<close>\<close>

text \<open>
  Claim C4, as the code has it. A path that begins with the raw-content URL prefix of this
  owner, repository and branch comes back without that prefix and without everything
  from the first \<open>?\<close> on. A path that does not begin with
  \<open>https://raw.githubusercontent.com/\<close> comes back unchanged. A raw-content URL in which
  the prefix of this owner, repository and branch does not occur (one of another
  repository, say) comes back without everything from the first \<open>?\<close> on: it is unchanged
  only when it has no query string.
\<close>

theorem getRelativeUrl_cases:
  "(prefix (raw_prefix owner repo branch) path \<longrightarrow>
      getRelativeUrl owner repo branch path =
        takeWhile (\<lambda>c. c \<noteq> CHR ''?'') (drop (length (raw_prefix owner repo branch)) path))
   \<and> (\<not> prefix raw_host path \<longrightarrow> getRelativeUrl owner repo branch path = path)
   \<and> (prefix raw_host path \<and> (\<forall>pre post. path \<noteq> pre @ raw_prefix owner repo branch @ post) \<longrightarrow>
        getRelativeUrl owner repo branch path = takeWhile (\<lambda>c. c \<noteq> CHR ''?'') path)"
proof (intro conjI impI)
  assume p: "prefix (raw_prefix owner repo branch) path"
  then have "prefix raw_host path"
    by (auto simp: raw_prefix_def prefix_def)
  with p show "getRelativeUrl owner repo branch path =
        takeWhile (\<lambda>c. c \<noteq> CHR ''?'') (drop (length (raw_prefix owner repo branch)) path)"
    by (simp add: getRelativeUrl_def startsWith_def split_head_takeWhile replace_prefix_Nil)
next
  assume "\<not> prefix raw_host path"
  then show "getRelativeUrl owner repo branch path = path"
    by (simp add: getRelativeUrl_def startsWith_def)
next
  assume "prefix raw_host path \<and> (\<forall>pre post. path \<noteq> pre @ raw_prefix owner repo branch @ post)"
  then show "getRelativeUrl owner repo branch path = takeWhile (\<lambda>c. c \<noteq> CHR ''?'') path"
    by (simp add: getRelativeUrl_def startsWith_def split_head_takeWhile replace_absent)
qed

theorem getRelativeUrl_cases_witness:
  "prefix (raw_prefix ''o'' ''r'' ''main'') ''https://raw.githubusercontent.com/o/r/main/d/a.png?token=1''
   \<and> getRelativeUrl ''o'' ''r'' ''main'' ''https://raw.githubusercontent.com/o/r/main/d/a.png?token=1''
       = ''d/a.png''
   \<and> \<not> prefix raw_host ''img/a.png?v=2''
   \<and> getRelativeUrl ''o'' ''r'' ''main'' ''img/a.png?v=2'' = ''img/a.png?v=2''
   \<and> prefix raw_host ''https://raw.githubusercontent.com/x/y/z/a.png?token=1''
   \<and> (\<forall>pre post. ''https://raw.githubusercontent.com/x/y/z/a.png?token=1''
          \<noteq> pre @ raw_prefix ''o'' ''r'' ''main'' @ post)
   \<and> getRelativeUrl ''o'' ''r'' ''main'' ''https://raw.githubusercontent.com/x/y/z/a.png?token=1''
       = ''https://raw.githubusercontent.com/x/y/z/a.png''"
proof -
  let ?own = "''https://raw.githubusercontent.com/o/r/main/d/a.png?token=1''"
  let ?rel = "''img/a.png?v=2''"
  let ?other = "''https://raw.githubusercontent.com/x/y/z/a.png?token=1''"
  have absent: "\<forall>pre post. ?other \<noteq> pre @ raw_prefix ''o'' ''r'' ''main'' @ post"
    by (intro allI, rule split_first_None) (simp add: raw_prefix_def raw_host_def)
  have p1: "prefix (raw_prefix ''o'' ''r'' ''main'') ?own"
    by (simp add: raw_prefix_def raw_host_def)
  have p2: "\<not> prefix raw_host ?rel"
    by (simp add: raw_host_def)
  have p3: "prefix raw_host ?other"
    by (simp add: raw_host_def)
  have "getRelativeUrl ''o'' ''r'' ''main'' ?own = ''d/a.png''"
    using getRelativeUrl_cases [where owner = "''o''" and repo = "''r''" and branch = "''main''"
            and path = ?own] p1
    by (simp add: raw_prefix_def raw_host_def)
  moreover have "getRelativeUrl ''o'' ''r'' ''main'' ?rel = ?rel"
    using getRelativeUrl_cases [where owner = "''o''" and repo = "''r''" and branch = "''main''"
            and path = ?rel] p2
    by blast
  moreover have "getRelativeUrl ''o'' ''r'' ''main'' ?other = ''https://raw.githubusercontent.com/x/y/z/a.png''"
    using getRelativeUrl_cases [where owner = "''o''" and repo = "''r''" and branch = "''main''"
            and path = ?other] p3 absent
    by simp
  ultimately show ?thesis
    using p1 p2 p3 absent by blast
qed

text \<open>
  The claim as stated fails for a raw-content URL of another repository that carries a
  query string: the path does not begin with the prefix of this repository, and yet it
  does not come back unchanged.
\<close>

theorem getRelativeUrl_other_repo_counterexample:
  "\<not> prefix (raw_prefix ''o'' ''r'' ''main'') ''https://raw.githubusercontent.com/x/y/z/a.png?token=1''
   \<and> getRelativeUrl ''o'' ''r'' ''main'' ''https://raw.githubusercontent.com/x/y/z/a.png?token=1''
       \<noteq> ''https://raw.githubusercontent.com/x/y/z/a.png?token=1''"
  by (simp add: getRelativeUrl_def startsWith_def raw_prefix_def raw_host_def replace_def split_head_def)

section \<open>The in-flight request marker after a rejected listing\<close>

text \<open>
  Claim C1 says that the in-flight request marker of a directory is removed when the
  listing completes, also when it is rejected, so that the next call retries. The code
  removes the marker after the \<open>await\<close>, which a rejected listing never passes. Evaluated:
  the listing of \<open>docs\<close> is rejected and the call fails; the marker still names listing 0,
  which has settled as rejected; a call one minute later suspends on that same listing
  without a new request, and fails again, even with a collaborator that would now
  resolve.
\<close>

theorem failed_listing_evaluation:
  "getRawUrl (constant_env Rejected) ''o'' ''r'' ''main'' ''docs/a.png'' True (init 1000)
     = (Inl ListingFailed, failed_world)
   \<and> requests failed_world ''o/r/main/docs'' = Some 0
   \<and> settled failed_world 0 = Some Rejected
   \<and> listings failed_world = [GetContents ''o'' ''r'' ''main'' ''docs'']
   \<and> getRawUrl_start ''o'' ''r'' ''main'' ''docs/a.png'' (failed_world\<lparr>clock := 60000\<rparr>)
       = (Awaiting 0, failed_world\<lparr>clock := 60000\<rparr>)
   \<and> getRawUrl (constant_env (Resolved (Some [(''docs/a.png'', Some ''https://x/a.png'')])))
        ''o'' ''r'' ''main'' ''docs/a.png'' True (failed_world\<lparr>clock := 60000\<rparr>)
       = (Inl ListingFailed, failed_world\<lparr>clock := 60000\<rparr>)"
proof -
  have "fst (getRawUrl (constant_env Rejected) ''o'' ''r'' ''main'' ''docs/a.png'' True (init 1000))
          = Inl ListingFailed"
    by (simp add: cache_defs)
  then have 1: "getRawUrl (constant_env Rejected) ''o'' ''r'' ''main'' ''docs/a.png'' True (init 1000)
     = (Inl ListingFailed, failed_world)"
    unfolding failed_world_def by (metis prod.collapse)
  have 2: "requests failed_world ''o/r/main/docs'' = Some 0"
    "settled failed_world 0 = Some Rejected"
    "listings failed_world = [GetContents ''o'' ''r'' ''main'' ''docs'']"
    by (simp_all add: failed_world_def cache_defs)
  have 3: "\<not> url_truthy (urls failed_world (full_path ''o'' ''r'' ''main'' ''docs/a.png''))"
    "paths failed_world (full_path ''o'' ''r'' ''main'' (parent_path ''docs/a.png'')) = None"
    "full_path ''o'' ''r'' ''main'' (parent_path ''docs/a.png'') = ''o/r/main/docs''"
    by (simp_all add: failed_world_def cache_defs)
  have 4: "getRawUrl_start ''o'' ''r'' ''main'' ''docs/a.png'' (failed_world\<lparr>clock := 60000\<rparr>)
       = (Awaiting 0, failed_world\<lparr>clock := 60000\<rparr>)"
    by (rule start_join [where d = "''o/r/main/docs''"]) (use 2 3 in \<open>simp_all add: marker_truthy_def\<close>)
  have 5: "getRawUrl env ''o'' ''r'' ''main'' ''docs/a.png'' True (failed_world\<lparr>clock := 60000\<rparr>)
       = (Inl ListingFailed, failed_world\<lparr>clock := 60000\<rparr>)" for env
    by (simp add: getRawUrl_def 4 await_def 2 getRawUrl_resume_def)
  from 1 2 4 5 show ?thesis by blast
qed

section \<open>An expired directory listing marker\<close>

text \<open>
  Claim C2, as the code has it. In every state the module can reach: a call in private
  mode for a file that has no usable cache entry, whose parent directory has a marker
  older than the time to live, discards the marker and requests a fresh listing (it
  suspends on the new listing, which is registered as in flight). A call for a file with
  a usable cache entry returns that entry and leaves the state as it is, so the marker
  is not looked at.
\<close>

theorem expired_marker_refetch:
  assumes r: "reachable w ws"
  shows "(\<not> url_truthy (urls w (full_path owner repo branch path))
          \<and> marker_expired (clock w) (paths w (full_path owner repo branch (parent_path path)))
        \<longrightarrow> (\<exists>w'. getRawUrl_start owner repo branch path w = (Awaiting (length (listings w)), w')
               \<and> paths w' (full_path owner repo branch (parent_path path)) = None
               \<and> listings w' = listings w @ [GetContents owner repo branch (parent_path path)]
               \<and> requests w' (full_path owner repo branch (parent_path path))
                    = Some (length (listings w))))
       \<and> (url_truthy (urls w (full_path owner repo branch path))
        \<longrightarrow> (\<exists>url. urls w (full_path owner repo branch path) = Some (Some url) \<and> url \<noteq> []
               \<and> getRawUrl_start owner repo branch path w = (Returned (Some url), w)))"
proof (intro conjI impI)
  let ?d = "full_path owner repo branch (parent_path path)"
  assume a: "\<not> url_truthy (urls w (full_path owner repo branch path))
          \<and> marker_expired (clock w) (paths w ?d)"
  then have e: "marker_expired (clock w) (paths w ?d)" by simp
  then have "marker_truthy (paths w ?d)"
    by (auto simp: marker_expired_def marker_truthy_def split: option.splits)
  with reachable_unmarked [OF r] have q: "requests w ?d = None"
    by (rule unmarked_no_request)
  from a e q have "getRawUrl_start owner repo branch path w =
           (Awaiting (length (listings w)),
            w\<lparr>paths := (if marker_expired (clock w) (paths w ?d) then (paths w)(?d := None) else paths w),
              requests := (requests w)(?d \<mapsto> length (listings w)),
              listings := listings w @ [GetContents owner repo branch (parent_path path)]\<rparr>)"
    by (intro start_cold) simp_all
  with e show "\<exists>w'. getRawUrl_start owner repo branch path w = (Awaiting (length (listings w)), w')
               \<and> paths w' ?d = None
               \<and> listings w' = listings w @ [GetContents owner repo branch (parent_path path)]
               \<and> requests w' ?d = Some (length (listings w))"
    by simp
next
  assume "url_truthy (urls w (full_path owner repo branch path))"
  then show "\<exists>url. urls w (full_path owner repo branch path) = Some (Some url) \<and> url \<noteq> []
               \<and> getRawUrl_start owner repo branch path w = (Returned (Some url), w)"
    by (auto simp: getRawUrl_start_def Let_def url_truthy_def or_null_def split: option.splits)
qed

theorem expired_marker_refetch_witness:
  "reachable (listed_world\<lparr>clock := 30000\<rparr>) []
   \<and> \<not> url_truthy (urls (listed_world\<lparr>clock := 30000\<rparr>) (full_path ''o'' ''r'' ''main'' ''docs/b.png''))
   \<and> marker_expired (clock (listed_world\<lparr>clock := 30000\<rparr>))
        (paths (listed_world\<lparr>clock := 30000\<rparr>) (full_path ''o'' ''r'' ''main'' (parent_path ''docs/b.png'')))
   \<and> (\<exists>w'. getRawUrl_start ''o'' ''r'' ''main'' ''docs/b.png'' (listed_world\<lparr>clock := 30000\<rparr>)
              = (Awaiting 1, w')
          \<and> paths w' ''o/r/main/docs'' = None
          \<and> listings w' = [GetContents ''o'' ''r'' ''main'' ''docs'', GetContents ''o'' ''r'' ''main'' ''docs''])
   \<and> url_truthy (urls (listed_world\<lparr>clock := 30000\<rparr>) (full_path ''o'' ''r'' ''main'' ''docs/a.png''))
   \<and> getRawUrl_start ''o'' ''r'' ''main'' ''docs/a.png'' (listed_world\<lparr>clock := 30000\<rparr>)
        = (Returned (Some ''https://x/a.png''), listed_world\<lparr>clock := 30000\<rparr>)"
proof -
  let ?w = "listed_world\<lparr>clock := 30000\<rparr>"
  have r: "reachable ?w []" by (rule tick [OF listed_world_reachable])
  have u: "\<not> url_truthy (urls ?w (full_path ''o'' ''r'' ''main'' ''docs/b.png''))"
    by (simp add: example_paths listed_world_facts url_truthy_def)
  have m: "marker_expired (clock ?w) (paths ?w (full_path ''o'' ''r'' ''main'' (parent_path ''docs/b.png'')))"
    by (simp add: example_paths listed_world_facts marker_expired_def ttl_def)
  have c: "url_truthy (urls ?w (full_path ''o'' ''r'' ''main'' ''docs/a.png''))"
    by (simp add: example_paths listed_world_facts url_truthy_def)
  from expired_marker_refetch [OF r, of "''o''" "''r''" "''main''" "''docs/b.png''"] u m
  have 1: "\<exists>w'. getRawUrl_start ''o'' ''r'' ''main'' ''docs/b.png'' ?w = (Awaiting 1, w')
          \<and> paths w' ''o/r/main/docs'' = None
          \<and> listings w' = [GetContents ''o'' ''r'' ''main'' ''docs'', GetContents ''o'' ''r'' ''main'' ''docs'']"
    by (auto simp: example_paths listed_world_facts)
  from expired_marker_refetch [OF r, of "''o''" "''r''" "''main''" "''docs/a.png''"] c
  have 2: "getRawUrl_start ''o'' ''r'' ''main'' ''docs/a.png'' ?w = (Returned (Some ''https://x/a.png''), ?w)"
    by (auto simp: example_paths listed_world_facts)
  from r u m c 1 2 show ?thesis by blast
qed

text \<open>
  The claim as stated fails when the URL of the file is in the cache: the marker of
  \<open>docs\<close>, set at 1005, has expired at 30000, and the call returns the cached URL, keeps
  the marker and requests nothing.
\<close>

theorem cached_url_skips_expiry_counterexample:
  "marker_expired (clock (listed_world\<lparr>clock := 30000\<rparr>))
     (paths (listed_world\<lparr>clock := 30000\<rparr>) (full_path ''o'' ''r'' ''main'' (parent_path ''docs/a.png'')))
   \<and> getRawUrl_start ''o'' ''r'' ''main'' ''docs/a.png'' (listed_world\<lparr>clock := 30000\<rparr>)
       = (Returned (Some ''https://x/a.png''), listed_world\<lparr>clock := 30000\<rparr>)
   \<and> paths (listed_world\<lparr>clock := 30000\<rparr>) ''o/r/main/docs'' = Some 1005
   \<and> listings (listed_world\<lparr>clock := 30000\<rparr>) = [GetContents ''o'' ''r'' ''main'' ''docs'']"
  by (simp add: example_paths listed_world_facts marker_expired_def ttl_def getRawUrl_start_def
        url_truthy_def or_null_def)

section \<open>A fresh directory listing marker\<close>

text \<open>
  Claim C7, as the code has it. While the parent directory has a marker (a timestamp
  other than 0) that is not older than the time to live, a call in private mode requests
  no listing and leaves the state as it is; it returns the cache entry of the file when
  that is a non-empty string, and \<open>null\<close> otherwise (no entry, \<open>null\<close>, or the empty
  string).
\<close>

theorem fresh_marker_no_request:
  assumes "paths w (full_path owner repo branch (parent_path path)) = Some t"
    and "t \<noteq> 0" and "\<not> t < clock w - ttl"
  shows "getRawUrl_start owner repo branch path w =
           (Returned (case urls w (full_path owner repo branch path) of
                        Some (Some url) \<Rightarrow> (if url = [] then None else Some url)
                      | _ \<Rightarrow> None), w)
       \<and> getRawUrl env owner repo branch path True w =
           (Inr (case urls w (full_path owner repo branch path) of
                   Some (Some url) \<Rightarrow> (if url = [] then None else Some url)
                 | _ \<Rightarrow> None), w)"
proof -
  have "getRawUrl_start owner repo branch path w =
           (Returned (case urls w (full_path owner repo branch path) of
                        Some (Some url) \<Rightarrow> (if url = [] then None else Some url)
                      | _ \<Rightarrow> None), w)"
    using assms
    by (auto simp: getRawUrl_start_def Let_def url_truthy_def or_null_def marker_truthy_def
          marker_expired_def split: option.splits)
  then show ?thesis by (simp add: getRawUrl_def)
qed

theorem fresh_marker_no_request_witness:
  "paths listed_world (full_path ''o'' ''r'' ''main'' (parent_path ''docs/a.png'')) = Some 1005
   \<and> (1005::int) \<noteq> 0 \<and> \<not> 1005 < clock listed_world - ttl
   \<and> getRawUrl_start ''o'' ''r'' ''main'' ''docs/a.png'' listed_world
       = (Returned (Some ''https://x/a.png''), listed_world)
   \<and> getRawUrl_start ''o'' ''r'' ''main'' ''docs/b.png'' listed_world = (Returned None, listed_world)"
proof -
  have p: "paths listed_world (full_path ''o'' ''r'' ''main'' (parent_path ''docs/a.png'')) = Some 1005"
    "paths listed_world (full_path ''o'' ''r'' ''main'' (parent_path ''docs/b.png'')) = Some 1005"
    by (simp_all add: example_paths listed_world_facts)
  have t: "\<not> 1005 < clock listed_world - ttl"
    by (simp add: listed_world_facts ttl_def)
  from fresh_marker_no_request [OF p(1) _ t] fresh_marker_no_request [OF p(2) _ t] p t
  show ?thesis
    by (simp add: example_paths listed_world_facts)
qed

text \<open>
  The claim as stated fails for an entry that is the empty string: the entry exists, and
  the call returns \<open>null\<close>, not the entry.
\<close>

theorem empty_entry_counterexample:
  "paths blank_world (full_path ''o'' ''r'' ''main'' (parent_path ''docs/a.png'')) = Some 1005
   \<and> \<not> 1005 < clock blank_world - ttl
   \<and> urls blank_world (full_path ''o'' ''r'' ''main'' ''docs/a.png'') = Some (Some [])
   \<and> getRawUrl_start ''o'' ''r'' ''main'' ''docs/a.png'' blank_world = (Returned None, blank_world)"
  by (simp add: example_paths blank_world_facts ttl_def getRawUrl_start_def url_truthy_def
        marker_truthy_def marker_expired_def)

section \<open>Two listings of one directory in flight\<close>

text \<open>
  Claim C8 says that at most one listing of a directory is in flight at any time. After
  its \<open>await\<close> a call removes the in-flight request of the directory (line 42), also
  when the request registered by then is a newer one than the one it awaited. In
  \<open>overlap_world\<close> the calls for \<open>docs/a.png\<close> and \<open>docs/b.png\<close> await listing 0; the
  call for \<open>docs/c.png\<close> starts between their continuations, when the marker has
  expired, and requests listing 1; the continuation of the call for \<open>docs/b.png\<close>
  removes that request; the call for \<open>docs/d.png\<close> then requests listing 2. Listings 1
  and 2 of \<open>o/r/main/docs\<close> are both in flight, and the calls for \<open>docs/c.png\<close> and
  \<open>docs/d.png\<close> await different listings.
\<close>

theorem two_listings_in_flight_evaluation:
  "reachable overlap_world
     [(1, Call ''o'' ''r'' ''main'' ''docs/c.png''), (2, Call ''o'' ''r'' ''main'' ''docs/d.png'')]
   \<and> listings overlap_world
       = [GetContents ''o'' ''r'' ''main'' ''docs'', GetContents ''o'' ''r'' ''main'' ''docs'',
          GetContents ''o'' ''r'' ''main'' ''docs'']
   \<and> settled overlap_world 0 = Some (Resolved (Some []))
   \<and> pending overlap_world 1 \<and> pending overlap_world 2
   \<and> dir_key (listings overlap_world ! 1) = ''o/r/main/docs''
   \<and> dir_key (listings overlap_world ! 2) = ''o/r/main/docs''"
proof -
  let ?a = "Call ''o'' ''r'' ''main'' ''docs/a.png''" and ?b = "Call ''o'' ''r'' ''main'' ''docs/b.png''"
  let ?c = "Call ''o'' ''r'' ''main'' ''docs/c.png''" and ?d = "Call ''o'' ''r'' ''main'' ''docs/d.png''"
  let ?out = "Resolved (Some [])"
  define w1 where "w1 = snd (start_call ?a (init 1000))"
  define w2 where "w2 = w1\<lparr>settled := (settled w1)(0 \<mapsto> ?out)\<rparr>"
  define w3 where "w3 = snd (start_call ?b w2)"
  define w4 where "w4 = snd (resume_call ?a ?out (w3\<lparr>clock := 2000\<rparr>))"
  define w5 where "w5 = snd (start_call ?c (w4\<lparr>clock := 20000\<rparr>))"
  define w6 where "w6 = snd (resume_call ?b ?out w5)"
  define w7 where "w7 = snd (start_call ?d (w6\<lparr>clock := 40000\<rparr>))"
  note defs = w1_def w2_def w3_def w4_def w5_def w6_def w7_def
  have o: "overlap_world = w7"
    by (simp add: overlap_world_def defs Let_def)
  have s1: "start_call ?a (init 1000) = (Awaiting 0, w1)"
    by (simp add: w1_def cache_defs)
  have l1: "0 < length (listings w1)" "settled w1 0 = None"
    by (simp_all add: w1_def cache_defs)
  have s2: "start_call ?b w2 = (Awaiting 0, w3)"
    by (simp add: w1_def w2_def w3_def cache_defs)
  have s3: "settled (w3\<lparr>clock := 2000\<rparr>) 0 = Some ?out"
    by (simp add: w1_def w2_def w3_def cache_defs)
  have s5: "start_call ?c (w4\<lparr>clock := 20000\<rparr>) = (Awaiting 1, w5)"
    by (simp add: defs cache_defs)
  have s6: "settled w5 0 = Some ?out"
    by (simp add: defs cache_defs)
  have s7: "start_call ?d (w6\<lparr>clock := 40000\<rparr>) = (Awaiting 2, w7)"
    by (simp add: defs cache_defs)
  have r1: "reachable w1 ([] @ [(0, ?a)])" by (rule suspended [OF initial s1])
  have r2: "reachable w2 ([] @ [(0, ?a)])"
    unfolding w2_def by (rule settle [OF r1 l1])
  have r3: "reachable w3 (([] @ [(0, ?a)]) @ [(0, ?b)])" by (rule suspended [OF r2 s2])
  have r3': "reachable (w3\<lparr>clock := 2000\<rparr>) (([] @ [(0, ?a)]) @ [(0, ?b)])" by (rule tick [OF r3])
  have r4: "reachable w4 (remove1 (0, ?a) (([] @ [(0, ?a)]) @ [(0, ?b)]))"
    by (rule resume [OF r3' _ s3, where res = "fst (resume_call ?a ?out (w3\<lparr>clock := 2000\<rparr>))"])
       (simp_all add: w4_def)
  then have r4': "reachable (w4\<lparr>clock := 20000\<rparr>) [(0, ?b)]"
    using tick by simp
  have r5: "reachable w5 ([(0, ?b)] @ [(1, ?c)])" by (rule suspended [OF r4' s5])
  have r6: "reachable w6 (remove1 (0, ?b) ([(0, ?b)] @ [(1, ?c)]))"
    by (rule resume [OF r5 _ s6, where res = "fst (resume_call ?b ?out w5)"])
       (simp_all add: w6_def)
  then have r6': "reachable (w6\<lparr>clock := 40000\<rparr>) [(1, ?c)]"
    using tick by simp
  have r7: "reachable w7 ([(1, ?c)] @ [(2, ?d)])" by (rule suspended [OF r6' s7])
  have f: "listings w7
       = [GetContents ''o'' ''r'' ''main'' ''docs'', GetContents ''o'' ''r'' ''main'' ''docs'',
          GetContents ''o'' ''r'' ''main'' ''docs'']"
    "settled w7 0 = Some ?out" "settled w7 1 = None" "settled w7 2 = None"
    by (simp_all add: defs cache_defs)
  from r7 f o show ?thesis
    by (simp add: pending_def full_path_def)
qed

section \<open>Falsy cache entries\<close>

text \<open>
  Claim C10. A call of \<open>getRawUrl\<close> in private mode never returns the empty string,
  whether it returns before the \<open>await\<close> or after it, and when the cache entry of the file
  is missing, \<open>null\<close> or the empty string as the call returns, the result is \<open>null\<close>. Then
  \<open>relativeToRawUrls\<close> goes on to the next match with the HTML as it was.
\<close>

theorem falsy_entry_is_null:
  "(getRawUrl_start owner repo branch path w = (Returned v, w') \<longrightarrow>
      v \<noteq> Some []
      \<and> (urls w' (full_path owner repo branch path) = None
           \<or> urls w' (full_path owner repo branch path) = Some None
           \<or> urls w' (full_path owner repo branch path) = Some (Some []) \<longrightarrow> v = None))
   \<and> (getRawUrl_resume owner repo branch path out w = (Inr v, w') \<longrightarrow>
      v \<noteq> Some []
      \<and> (urls w' (full_path owner repo branch path) = None
           \<or> urls w' (full_path owner repo branch path) = Some None
           \<or> urls w' (full_path owner repo branch path) = Some (Some []) \<longrightarrow> v = None))
   \<and> (getRawUrl env owner repo branch path True w = (Inr v, w') \<longrightarrow>
      v \<noteq> Some []
      \<and> (urls w' (full_path owner repo branch path) = None
           \<or> urls w' (full_path owner repo branch path) = Some None
           \<or> urls w' (full_path owner repo branch path) = Some (Some []) \<longrightarrow> v = None))
   \<and> (match_src m = Some path \<and> is_relative path
        \<and> getRawUrl env owner repo branch path True w = (Inr v, w')
        \<and> (urls w' (full_path owner repo branch path) = None
           \<or> urls w' (full_path owner repo branch path) = Some None
           \<or> urls w' (full_path owner repo branch path) = Some (Some [])) \<longrightarrow>
      relativeToRawUrls_loop env owner repo branch True (m # ms) html w
        = relativeToRawUrls_loop env owner repo branch True ms html w')"
proof -
  let ?fp = "full_path owner repo branch path"
  let ?falsy = "\<lambda>w'. urls w' ?fp = None \<or> urls w' ?fp = Some None \<or> urls w' ?fp = Some (Some [])"
  have start: "v \<noteq> Some [] \<and> (?falsy w' \<longrightarrow> v = None)"
    if "getRawUrl_start owner repo branch path w = (Returned v, w')" for v w w'
  proof (cases "url_truthy (urls w ?fp)")
    case True
    with that have "v = or_null (urls w ?fp)" "w' = w"
      by (auto simp: getRawUrl_start_def Let_def)
    then show ?thesis using or_null_cases(1,2) [of "urls w ?fp"] by simp
  next
    case False
    with that have "v = None"
      by (auto simp: getRawUrl_start_def Let_def split: if_splits option.splits)
    then show ?thesis by simp
  qed
  have resume: "v \<noteq> Some [] \<and> (?falsy w' \<longrightarrow> v = None)"
    if "getRawUrl_resume owner repo branch path out w = (Inr v, w')" for v w w' out
  proof -
    from that have "v = or_null (urls w' ?fp)"
      by (auto simp: getRawUrl_resume_def Let_def split: outcome.splits)
    then show ?thesis using or_null_cases(1,2) [of "urls w' ?fp"] by simp
  qed
  have whole: "v \<noteq> Some [] \<and> (?falsy w' \<longrightarrow> v = None)"
    if "getRawUrl env owner repo branch path True w = (Inr v, w')" for v w w'
  proof (cases "getRawUrl_start owner repo branch path w")
    case (Pair res w1)
    show ?thesis
    proof (cases res)
      case (Returned v1)
      with Pair that have "getRawUrl_start owner repo branch path w = (Returned v, w')"
        by (simp add: getRawUrl_def)
      then show ?thesis by (rule start)
    next
      case (Awaiting h)
      obtain out w2 where aw: "await env h w1 = (out, w2)" by (cases "await env h w1")
      with Pair Awaiting that have "getRawUrl_resume owner repo branch path out w2 = (Inr v, w')"
        by (simp add: getRawUrl_def)
      then show ?thesis by (rule resume)
    qed
  qed
  have loop: "relativeToRawUrls_loop env owner repo branch True (m # ms) html w
        = relativeToRawUrls_loop env owner repo branch True ms html w'"
    if "match_src m = Some path \<and> is_relative path
        \<and> getRawUrl env owner repo branch path True w = (Inr v, w') \<and> ?falsy w'"
  proof -
    from that have g: "getRawUrl env owner repo branch path True w = (Inr v, w')"
      and f: "?falsy w'" by simp_all
    from whole [OF g] f have "v = None" by simp
    with that show ?thesis by simp
  qed
  show ?thesis
  proof (intro conjI)
    show "getRawUrl_start owner repo branch path w = (Returned v, w') \<longrightarrow>
      v \<noteq> Some [] \<and> (?falsy w' \<longrightarrow> v = None)"
      by (rule impI) (rule start)
    show "getRawUrl_resume owner repo branch path out w = (Inr v, w') \<longrightarrow>
      v \<noteq> Some [] \<and> (?falsy w' \<longrightarrow> v = None)"
      by (rule impI) (rule resume)
    show "getRawUrl env owner repo branch path True w = (Inr v, w') \<longrightarrow>
      v \<noteq> Some [] \<and> (?falsy w' \<longrightarrow> v = None)"
      by (rule impI) (rule whole)
    show "match_src m = Some path \<and> is_relative path
        \<and> getRawUrl env owner repo branch path True w = (Inr v, w') \<and> ?falsy w' \<longrightarrow>
      relativeToRawUrls_loop env owner repo branch True (m # ms) html w
        = relativeToRawUrls_loop env owner repo branch True ms html w'"
      by (rule impI) (rule loop)
  qed
qed

theorem falsy_entry_is_null_witness:
  "getRawUrl_start ''o'' ''r'' ''main'' ''docs/a.png'' blank_world = (Returned None, blank_world)
   \<and> urls blank_world (full_path ''o'' ''r'' ''main'' ''docs/a.png'') = Some (Some [])
   \<and> getRawUrl (constant_env (Resolved (Some [(''docs/a.png'', Some [])])))
        ''o'' ''r'' ''main'' ''docs/a.png'' True (init 1000) = (Inr None, blank_world)
   \<and> getRawUrl_resume ''o'' ''r'' ''main'' ''docs/a.png''
        (Resolved (Some [(''docs/a.png'', Some [])])) (init 1000)
        = (Inr None, snd (getRawUrl_resume ''o'' ''r'' ''main'' ''docs/a.png''
                            (Resolved (Some [(''docs/a.png'', Some [])])) (init 1000)))
   \<and> match_src (Some ''docs/a.png'', None) = Some ''docs/a.png'' \<and> is_relative ''docs/a.png''
   \<and> relativeToRawUrls_loop (constant_env (Resolved (Some [(''docs/a.png'', Some [])])))
        ''o'' ''r'' ''main'' True [(Some ''docs/a.png'', None)]
        (''<img src='' @ DQ @ ''docs/a.png'' @ DQ @ ''>'') (init 1000)
       = (Inr (''<img src='' @ DQ @ ''docs/a.png'' @ DQ @ ''>''), blank_world)"
proof -
  let ?env = "constant_env (Resolved (Some [(''docs/a.png'', Some [])]))"
  let ?out = "Resolved (Some [(''docs/a.png'', Some [])])"
  let ?html = "''<img src='' @ DQ @ ''docs/a.png'' @ DQ @ ''>''"
  let ?fp = "full_path ''o'' ''r'' ''main'' ''docs/a.png''"
  let ?w2 = "snd (getRawUrl_resume ''o'' ''r'' ''main'' ''docs/a.png'' ?out (init 1000))"
  have u: "urls blank_world ?fp = Some (Some [])"
    by (simp add: example_paths blank_world_facts)
  have s: "getRawUrl_start ''o'' ''r'' ''main'' ''docs/a.png'' blank_world = (Returned None, blank_world)"
    by (simp add: example_paths blank_world_facts ttl_def getRawUrl_start_def url_truthy_def
          marker_truthy_def marker_expired_def)
  have "\<exists>v. getRawUrl ?env ''o'' ''r'' ''main'' ''docs/a.png'' True (init 1000) = (Inr v, blank_world)"
    unfolding blank_world_def by (simp add: cache_defs)
  then obtain v where g: "getRawUrl ?env ''o'' ''r'' ''main'' ''docs/a.png'' True (init 1000) = (Inr v, blank_world)"
    by blast
  have "\<exists>v'. getRawUrl_resume ''o'' ''r'' ''main'' ''docs/a.png'' ?out (init 1000) = (Inr v', ?w2)"
    by (simp add: getRawUrl_resume_def Let_def)
  then obtain v' where r: "getRawUrl_resume ''o'' ''r'' ''main'' ''docs/a.png'' ?out (init 1000) = (Inr v', ?w2)"
    by blast
  have u2: "urls ?w2 ?fp = Some (Some [])"
    by (simp add: cache_defs)
  have m: "match_src (Some ''docs/a.png'', None) = Some ''docs/a.png''" "is_relative ''docs/a.png''"
    by (simp_all add: match_src_def is_relative_def startsWith_def)
  note inst = falsy_entry_is_null [where owner = "''o''" and repo = "''r''" and branch = "''main''"
      and path = "''docs/a.png''"]
  from inst [where w = "init 1000" and env = ?env and v = v and w' = blank_world] g u
  have v: "v = None" by simp
  from inst [where w = "init 1000" and out = ?out and v = v' and w' = ?w2] r u2
  have v': "v' = None" by simp
  from inst [where w = "init 1000" and env = ?env and v = v and w' = blank_world
      and m = "(Some ''docs/a.png'', None)" and ms = "[]" and html = ?html] g u m
  have l: "relativeToRawUrls_loop ?env ''o'' ''r'' ''main'' True [(Some ''docs/a.png'', None)] ?html (init 1000)
      = (Inr ?html, blank_world)"
    by simp
  from s u g r m l v v' show ?thesis by simp
qed

section \<open>Prefix operations on \<open>undefined\<close>\<close>

text \<open>
  Claim C5 says that the four prefix operations return their input when an argument is
  \<open>undefined\<close>. \<open>swapPrefix\<close> and \<open>htmlSwapPrefix\<close> test for it; \<open>removePrefix\<close> and
  \<open>addPrefix\<close> do not. Evaluated: with an \<open>undefined\<close> prefix, \<open>addPrefix\<close> puts the text
  \<open>undefined\<close> before the source and \<open>removePrefix\<close> removes the text \<open>undefined\<close> from
  it; with an \<open>undefined\<close> HTML both throw.
\<close>

theorem prefix_undefined_evaluation:
  "addPrefix (Some (''<img src='' @ DQ @ ''a.png'' @ DQ @ ''>'')) None
     = Inr (''<img src='' @ DQ @ ''undefineda.png'' @ DQ @ ''>'')
   \<and> removePrefix (Some (''<img src='' @ DQ @ ''undefined/a.png'' @ DQ @ ''>'')) None
     = Inr (''<img src='' @ DQ @ ''/a.png'' @ DQ @ ''>'')
   \<and> addPrefix None (Some ''/p/'') = Inl TypeError
   \<and> removePrefix None (Some ''/p/'') = Inl TypeError
   \<and> swapPrefix (Some ''/old/a.png'') None (Some ''/new'') = Some ''/old/a.png''
   \<and> htmlSwapPrefix None (Some ''/old'') (Some ''/new'') = Inr None"
  by (simp add: html_defs regex_defs swapPrefix_def)

section \<open>Round trip\<close>

text \<open>
  Claim C6 says that \<open>relativeToRawUrls\<close> in public mode followed by \<open>rawToRelativeUrls\<close>
  gives every relative source value without a query string back. The replacement text
  of \<open>String.prototype.replace\<close> is not taken literally: \<open>$$\<close> in it stands for one \<open>$\<close>.
  Evaluated: the source \<open>a$$b.png\<close> is matched, relative and without \<open>?\<close>; the raw URL
  written into the HTML ends in \<open>a$b.png\<close>, and the way back gives \<open>a$b.png\<close>.
\<close>

theorem round_trip_dollar_evaluation:
  "getImgSrcs (''<img src='' @ DQ @ ''a$$b.png'' @ DQ @ ''>'') = [(Some ''a$$b.png'', None)]
   \<and> is_relative ''a$$b.png'' \<and> CHR ''?'' \<notin> set ''a$$b.png''
   \<and> relativeToRawUrls env ''o'' ''r'' ''main'' (''<img src='' @ DQ @ ''a$$b.png'' @ DQ @ ''>'') False w
     = (Inr (''<img src='' @ DQ @ ''https://raw.githubusercontent.com/o/r/main/a$b.png'' @ DQ @ ''>''), w)
   \<and> rawToRelativeUrls ''o'' ''r'' ''main''
       (''<img src='' @ DQ @ ''https://raw.githubusercontent.com/o/r/main/a$b.png'' @ DQ @ ''>'')
     = Inr (''<img src='' @ DQ @ ''a$b.png'' @ DQ @ ''>'')
   \<and> getImgSrcs (''<img src='' @ DQ @ ''a$b.png'' @ DQ @ ''>'') = [(Some ''a$b.png'', None)]"
  by (simp add: html_defs regex_defs getRawUrl_def)

section \<open>Matches have a source value\<close>

text \<open>
  Claim C9, as the code has it. Every match of \<open>getImgSrcs\<close> stands at an occurrence of
  \<open>src=\<close> followed by a quoted value that is not empty; exactly one of its two groups is
  present and \<open>match[1] || match[2]\<close> is that value. An \<open>img\<close> tag in which every quote
  after a text \<open>src=\<close> opens an empty string is not matched, whatever follows it. When
  such a tag \<open>T\<close> stands in the HTML between \<open>A\<close> and \<open>B\<close> and no matched value contains
  the text \<^verbatim>\<open><img \<close>, every rewriting operation returns a text \<open>A' @ T @ B'\<close>: the tag is
  where it was, as it was, and all replacements were made in the text before it or in
  the text after it. \<open>rawToRelativeUrls\<close>, \<open>htmlSwapPrefix\<close>, \<open>removePrefix\<close> and
  \<open>addPrefix\<close> always return such a text; \<open>relativeToRawUrls\<close> does when it returns
  one.
\<close>

theorem sourceless_tag_kept:
  "(\<forall>m \<in> set (getImgSrcs html).
      \<exists>pre q v t. html = pre @ ''src='' @ q # v @ q # t \<and> v \<noteq> [] \<and> q \<notin> set v
        \<and> (m = (Some v, None) \<and> [q] = DQ \<or> m = (None, Some v) \<and> [q] = SQ)
        \<and> match_src m = Some v)
   \<and> (sourceless_tag T \<longrightarrow> regex_at (T @ rest) = None)
   \<and> (sourceless_tag T \<and> html = A @ T @ B
        \<and> (\<forall>m \<in> set (getImgSrcs html). \<forall>v. match_src m = Some v \<longrightarrow> \<not> sublist ''<img '' v) \<longrightarrow>
        (relativeToRawUrls env owner repo branch html isPrivate w = (Inr html', w') \<longrightarrow>
           (\<exists>A' B'. html' = A' @ T @ B' \<and> around (getImgSrcs html) A B A' B'))
        \<and> (\<exists>A' B'. rawToRelativeUrls owner repo branch html = Inr (A' @ T @ B')
              \<and> around (getImgSrcs html) A B A' B')
        \<and> (\<exists>A' B'. htmlSwapPrefix (Some html) from to = Inr (Some (A' @ T @ B'))
              \<and> around (getImgSrcs html) A B A' B')
        \<and> (\<exists>A' B'. removePrefix (Some html) pfx = Inr (A' @ T @ B')
              \<and> around (getImgSrcs html) A B A' B')
        \<and> (\<exists>A' B'. addPrefix (Some html) pfx = Inr (A' @ T @ B')
              \<and> around (getImgSrcs html) A B A' B'))"
proof (intro conjI ballI impI)
  fix m assume "m \<in> set (getImgSrcs html)"
  from getImgSrcs_match [OF this] obtain pre q v t where
    h: "html = pre @ ''src='' @ q # v @ q # t" and v: "v \<noteq> []" "q \<notin> set v"
    and m: "m = (Some v, None) \<and> q = CHR 0x22 \<or> m = (None, Some v) \<and> q = CHR 0x27" by blast
  from m v have "match_src m = Some v" by (auto simp: match_src_def)
  moreover from m have "m = (Some v, None) \<and> [q] = DQ \<or> m = (None, Some v) \<and> [q] = SQ"
    by (auto simp: DQ_def SQ_def)
  ultimately show "\<exists>pre q v t. html = pre @ ''src='' @ q # v @ q # t \<and> v \<noteq> [] \<and> q \<notin> set v
        \<and> (m = (Some v, None) \<and> [q] = DQ \<or> m = (None, Some v) \<and> [q] = SQ)
        \<and> match_src m = Some v"
    using h v by blast
next
  assume "sourceless_tag T"
  then show "regex_at (T @ rest) = None" by (rule tag_not_matched)
next
  assume a: "sourceless_tag T \<and> html = A @ T @ B
        \<and> (\<forall>m \<in> set (getImgSrcs html). \<forall>v. match_src m = Some v \<longrightarrow> \<not> sublist ''<img '' v)"
  then have T: "sourceless_tag T" and h: "html = A @ T @ B"
    and n: "\<forall>m \<in> set (getImgSrcs html). \<forall>v. match_src m = Some v \<longrightarrow> \<not> sublist ''<img '' v"
    by blast+
  have good: "\<forall>m \<in> set (getImgSrcs html). \<forall>v. match_src m = Some v \<longrightarrow>
        (\<exists>q. match_quote m = [q] \<and> (q = CHR 0x22 \<or> q = CHR 0x27) \<and> v \<noteq> [] \<and> q \<notin> set v
             \<and> \<not> sublist ''<img '' v)"
  proof (intro ballI allI impI)
    fix m v assume m: "m \<in> set (getImgSrcs html)" "match_src m = Some v"
    from match_shape [OF this] n m
    show "\<exists>q. match_quote m = [q] \<and> (q = CHR 0x22 \<or> q = CHR 0x27) \<and> v \<noteq> [] \<and> q \<notin> set v
             \<and> \<not> sublist ''<img '' v" by blast
  qed
  have keep: "\<exists>A' B'. h' = A' @ T @ B' \<and> around (getImgSrcs html) A B A' B'"
    if "rewritten N (getImgSrcs html) html h'" for N h'
    by (rule rewritten_keeps_tag [OF that T h good])
  {
    assume r: "relativeToRawUrls env owner repo branch html isPrivate w = (Inr html', w')"
    show "\<exists>A' B'. html' = A' @ T @ B' \<and> around (getImgSrcs html) A B A' B'"
    proof (cases isPrivate)
      case True
      with r have "relativeToRawUrls env owner repo branch html True w = (Inr html', w')" by simp
      from keep [OF private_rewritten [OF this]] show ?thesis .
    next
      case False
      from public_rewritten [of env owner repo branch html w] False r
      obtain N where "rewritten N (getImgSrcs html) html html'" by auto
      then show ?thesis by (rule keep)
    qed
  }
  from rawToRelativeUrls_rewritten [of owner repo branch html]
  obtain h1 where "rawToRelativeUrls owner repo branch html = Inr h1"
    and "\<exists>A' B'. h1 = A' @ T @ B' \<and> around (getImgSrcs html) A B A' B'"
    by (blast intro: keep)
  then show "\<exists>A' B'. rawToRelativeUrls owner repo branch html = Inr (A' @ T @ B')
              \<and> around (getImgSrcs html) A B A' B'" by auto
  show "\<exists>A' B'. htmlSwapPrefix (Some html) from to = Inr (Some (A' @ T @ B'))
              \<and> around (getImgSrcs html) A B A' B'"
  proof (cases "\<exists>f t. from = Some f \<and> to = Some t")
    case True
    then obtain f t where ft: "from = Some f" "to = Some t" by blast
    from htmlSwapPrefix_rewritten [of html f t]
    obtain h2 where "htmlSwapPrefix (Some html) (Some f) (Some t) = Inr (Some h2)"
      and "\<exists>A' B'. h2 = A' @ T @ B' \<and> around (getImgSrcs html) A B A' B'"
      by (blast intro: keep)
    with ft show ?thesis by auto
  next
    case False
    then have "htmlSwapPrefix (Some html) from to = Inr (Some (A @ T @ B))"
      using h by (auto simp: htmlSwapPrefix_def split: option.splits)
    with around_refl [of "getImgSrcs html" A B] show ?thesis by blast
  qed
  from removePrefix_rewritten [of html pfx]
  obtain h3 where "removePrefix (Some html) pfx = Inr h3"
    and "\<exists>A' B'. h3 = A' @ T @ B' \<and> around (getImgSrcs html) A B A' B'"
    by (blast intro: keep)
  then show "\<exists>A' B'. removePrefix (Some html) pfx = Inr (A' @ T @ B')
              \<and> around (getImgSrcs html) A B A' B'" by auto
  from addPrefix_rewritten [of html pfx]
  obtain h4 where "addPrefix (Some html) pfx = Inr h4"
    and "\<exists>A' B'. h4 = A' @ T @ B' \<and> around (getImgSrcs html) A B A' B'"
    by (blast intro: keep)
  then show "\<exists>A' B'. addPrefix (Some html) pfx = Inr (A' @ T @ B')
              \<and> around (getImgSrcs html) A B A' B'" by auto
qed

theorem sourceless_tag_kept_witness:
  "getImgSrcs (''<img src='' @ DQ @ DQ @ ''>'' @ ''<img src='' @ DQ @ ''b.png'' @ DQ @ ''>'')
     = [(Some ''b.png'', None)]
   \<and> match_src (Some ''b.png'', None) = Some ''b.png''
   \<and> sourceless_tag (''<img src='' @ DQ @ DQ @ ''>'')
   \<and> regex_at (''<img src='' @ DQ @ DQ @ ''>'' @ ''<img src='' @ DQ @ ''b.png'' @ DQ @ ''>'') = None
   \<and> addPrefix (Some (''<img src='' @ DQ @ DQ @ ''>'' @ ''<img src='' @ DQ @ ''b.png'' @ DQ @ ''>''))
        (Some ''/p/'')
       = Inr (''<img src='' @ DQ @ DQ @ ''>'' @ ''<img src='' @ DQ @ ''/p/b.png'' @ DQ @ ''>'')
   \<and> (\<exists>A' B'. addPrefix (Some (''<img src='' @ DQ @ DQ @ ''>''
                                   @ ''<img src='' @ DQ @ ''b.png'' @ DQ @ ''>'')) (Some ''/p/'')
                  = Inr (A' @ (''<img src='' @ DQ @ DQ @ ''>'') @ B')
         \<and> around [(Some ''b.png'', None)] [] (''<img src='' @ DQ @ ''b.png'' @ DQ @ ''>'') A' B')"
proof -
  let ?T = "''<img src='' @ DQ @ DQ @ ''>''"
  let ?B = "''<img src='' @ DQ @ ''b.png'' @ DQ @ ''>''"
  let ?h = "?T @ ?B"
  have g: "getImgSrcs ?h = [(Some ''b.png'', None)]"
    by (simp add: regex_defs html_defs)
  have m: "match_src (Some ''b.png'', None) = Some ''b.png''"
    by (simp add: match_src_def)
  have n: "\<forall>m \<in> set (getImgSrcs ?h). \<forall>v. match_src m = Some v \<longrightarrow> \<not> sublist ''<img '' v"
    unfolding g by (simp add: match_src_def sublist_Cons_right)
  have e: "addPrefix (Some ?h) (Some ''/p/'')
       = Inr (?T @ ''<img src='' @ DQ @ ''/p/b.png'' @ DQ @ ''>'')"
    by (simp add: regex_defs html_defs)
  note inst = sourceless_tag_kept [where html = ?h and T = ?T and A = "[]" and B = ?B and rest = ?B
      and pfx = "Some ''/p/''"]
  from inst empty_src_sourceless(1) have "regex_at (?T @ ?B) = None" by blast
  moreover from inst empty_src_sourceless(1) n
  have "\<exists>A' B'. addPrefix (Some ?h) (Some ''/p/'') = Inr (A' @ ?T @ B')
         \<and> around (getImgSrcs ?h) [] ?B A' B'"
    by simp
  ultimately show ?thesis using g m e empty_src_sourceless(1) by simp
qed

text \<open>
  The claim as stated fails in two ways. An \<open>img\<close> tag whose \<open>src\<close> attribute is empty
  and which has another attribute whose text ends in \<open>src=\<close> is matched through that
  attribute, here \<open>data-src\<close>, and \<open>addPrefix\<close> changes it. And the tag
  \<^verbatim>\<open><img src=''>\<close>, which is not matched, is changed when it stands inside the source
  value of a matched tag: \<open>removePrefix\<close> with the prefix \<^verbatim>\<open>b<img \<close> takes its beginning
  away.
\<close>

theorem empty_src_tag_counterexample:
  "getImgSrcs (''<img src='' @ DQ @ DQ @ '' data-src='' @ DQ @ ''a.png'' @ DQ @ ''>'')
     = [(Some ''a.png'', None)]
   \<and> addPrefix (Some (''<img src='' @ DQ @ DQ @ '' data-src='' @ DQ @ ''a.png'' @ DQ @ ''>''))
        (Some ''/p/'')
       = Inr (''<img src='' @ DQ @ DQ @ '' data-src='' @ DQ @ ''/p/a.png'' @ DQ @ ''>'')
   \<and> sourceless_tag (''<img src='' @ SQ @ SQ @ ''>'')
   \<and> getImgSrcs (''<img src='' @ DQ @ ''b<img src='' @ SQ @ SQ @ ''>'' @ DQ @ ''>'')
       = [(Some (''b<img src='' @ SQ @ SQ @ ''>''), None)]
   \<and> removePrefix (Some (''<img src='' @ DQ @ ''b<img src='' @ SQ @ SQ @ ''>'' @ DQ @ ''>''))
        (Some ''b<img '')
       = Inr (''<img src='' @ DQ @ ''src='' @ SQ @ SQ @ ''>'' @ DQ @ ''>'')"
proof -
  have "getImgSrcs (''<img src='' @ DQ @ DQ @ '' data-src='' @ DQ @ ''a.png'' @ DQ @ ''>'')
     = [(Some ''a.png'', None)]"
    by (simp add: regex_defs html_defs)
  moreover have "addPrefix (Some (''<img src='' @ DQ @ DQ @ '' data-src='' @ DQ @ ''a.png'' @ DQ @ ''>''))
        (Some ''/p/'')
       = Inr (''<img src='' @ DQ @ DQ @ '' data-src='' @ DQ @ ''/p/a.png'' @ DQ @ ''>'')"
    by (simp add: regex_defs html_defs)
  moreover have "getImgSrcs (''<img src='' @ DQ @ ''b<img src='' @ SQ @ SQ @ ''>'' @ DQ @ ''>'')
       = [(Some (''b<img src='' @ SQ @ SQ @ ''>''), None)]"
    by (simp add: regex_defs html_defs)
  moreover have "removePrefix (Some (''<img src='' @ DQ @ ''b<img src='' @ SQ @ SQ @ ''>'' @ DQ @ ''>''))
        (Some ''b<img '')
       = Inr (''<img src='' @ DQ @ ''src='' @ SQ @ SQ @ ''>'' @ DQ @ ''>'')"
    by (simp add: regex_defs html_defs)
  ultimately show ?thesis using empty_src_sourceless(2) by simp
qed

section \<open>What the rewriting operations leave alone\<close>

text \<open>
  Claim C3, as the code has it. Each rewriting operation goes through the matches of
  the HTML it is given, in order. For a match whose value qualifies and whose text
  \<^verbatim>\<open>src=<quote><value><quote>\<close> occurs in the current text, it replaces the first
  occurrence of that text by \<^verbatim>\<open>src=<quote><new value><quote>\<close>, read as a replacement
  of \<open>String.prototype.replace\<close> (which is that text itself when the new value has no
  \<open>$\<close>), and keeps the text before and after the occurrence; any other match changes
  nothing. The occurrence need not lie in the matched tag. The new value is the raw
  URL prefix followed by the value for a relative value in public mode, a URL that is
  not empty (or nothing) for a relative value in private mode, \<open>getRelativeUrl\<close> of the
  value for a value at the raw host, the value with \<open>from\<close> replaced by \<open>to\<close> in
  \<open>htmlSwapPrefix\<close>, the value without the prefix in \<open>removePrefix\<close>, and the prefix
  followed by the value for a relative value in \<open>addPrefix\<close>. \<open>relativeToRawUrls\<close> in public mode,
  \<open>rawToRelativeUrls\<close>, \<open>htmlSwapPrefix\<close>, \<open>removePrefix\<close> and \<open>addPrefix\<close> always return
  such a text; \<open>relativeToRawUrls\<close> in private mode does when it returns one.
\<close>

theorem rewriting_law:
  "(\<exists>h. relativeToRawUrls env owner repo branch html False w = (Inr h, w)
        \<and> rewritten (\<lambda>v r. r = (if is_relative v then Some (raw_prefix owner repo branch @ v) else None))
            (getImgSrcs html) html h)
   \<and> (relativeToRawUrls env owner repo branch html True w = (Inr html', w') \<longrightarrow>
        rewritten (\<lambda>v r. if is_relative v then r = None \<or> (\<exists>u. r = Some u \<and> u \<noteq> []) else r = None)
          (getImgSrcs html) html html')
   \<and> (\<exists>h. rawToRelativeUrls owner repo branch html = Inr h
        \<and> rewritten (\<lambda>v r. r = (if startsWith v raw_host
                                 then Some (getRelativeUrl owner repo branch v) else None))
            (getImgSrcs html) html h)
   \<and> (\<exists>h. htmlSwapPrefix (Some html) (Some from) (Some to) = Inr (Some h)
        \<and> rewritten (\<lambda>v r. r = (if has_prefix v from \<and> \<not> startsWith v ''http://''
                                    \<and> \<not> startsWith v ''https://'' \<and> \<not> startsWith v ''data:image/''
                                 then Some (replace v from to) else None))
            (getImgSrcs html) html h)
   \<and> (\<exists>h. removePrefix (Some html) pfx = Inr h
        \<and> rewritten (\<lambda>v r. r = (if startsWith v (toString pfx)
                                    \<and> \<not> (pfx = Some ''/'' \<and> startsWith v ''//'')
                                 then Some (drop (length (toString pfx)) v) else None))
            (getImgSrcs html) html h)
   \<and> (\<exists>h. addPrefix (Some html) pfx = Inr h
        \<and> rewritten (\<lambda>v r. r = (if is_relative v then Some (toString pfx @ v) else None))
            (getImgSrcs html) html h)
   \<and> (CHR ''$'' \<notin> set u \<longrightarrow>
        substitution pat pre post (src_text (match_quote m) u) = src_text (match_quote m) u)"
  using public_rewritten [of env owner repo branch html w]
    private_rewritten [of env owner repo branch html w html' w']
    rawToRelativeUrls_rewritten [of owner repo branch html]
    htmlSwapPrefix_rewritten [of html "from" to]
    removePrefix_rewritten [of html pfx]
    addPrefix_rewritten [of html pfx]
    src_text_plain [of u pat pre post m]
  by (intro conjI impI) assumption+

theorem rewriting_law_witness:
  "relativeToRawUrls (constant_env (Resolved (Some [(''docs/a.png'', Some ''https://x/a.png'')])))
      ''o'' ''r'' ''main'' (''<img src='' @ DQ @ ''docs/a.png'' @ DQ @ ''>'') True (init 1000)
     = (Inr (''<img src='' @ DQ @ ''https://x/a.png'' @ DQ @ ''>''), listed_world)
   \<and> rewritten (\<lambda>v r. if is_relative v then r = None \<or> (\<exists>u. r = Some u \<and> u \<noteq> []) else r = None)
       (getImgSrcs (''<img src='' @ DQ @ ''docs/a.png'' @ DQ @ ''>''))
       (''<img src='' @ DQ @ ''docs/a.png'' @ DQ @ ''>'')
       (''<img src='' @ DQ @ ''https://x/a.png'' @ DQ @ ''>'')
   \<and> substitution (''src='' @ DQ @ ''docs/a.png'' @ DQ) ''<img '' ''>''
        (src_text (match_quote (Some ''docs/a.png'', None)) ''https://x/a.png'')
       = ''src='' @ DQ @ ''https://x/a.png'' @ DQ"
proof -
  let ?env = "constant_env (Resolved (Some [(''docs/a.png'', Some ''https://x/a.png'')]))"
  let ?h = "''<img src='' @ DQ @ ''docs/a.png'' @ DQ @ ''>''"
  let ?h' = "''<img src='' @ DQ @ ''https://x/a.png'' @ DQ @ ''>''"
  have e: "relativeToRawUrls ?env ''o'' ''r'' ''main'' ?h True (init 1000) = (Inr ?h', listed_world)"
    unfolding listed_world_def by (simp add: html_defs regex_defs cache_defs)
  have d: "CHR ''$'' \<notin> set ''https://x/a.png''" by simp
  have s: "src_text (match_quote (Some ''docs/a.png'', None)) ''https://x/a.png''
        = ''src='' @ DQ @ ''https://x/a.png'' @ DQ"
    by (simp add: src_text_def match_quote_def)
  note law = rewriting_law [where env = ?env and owner = "''o''" and repo = "''r''"
      and branch = "''main''" and html = ?h and w = "init 1000" and html' = ?h'
      and w' = listed_world and u = "''https://x/a.png''"
      and pat = "''src='' @ DQ @ ''docs/a.png'' @ DQ" and pre = "''<img ''" and post = "''>''"
      and m = "(Some ''docs/a.png'', None)"]
  from law e d s show ?thesis by simp
qed

text \<open>
  The claim as stated fails when the text \<^verbatim>\<open>src="a.png"\<close> stands before the matched
  tag: the only match is the \<open>img\<close> tag, the \<open>iframe\<close> before it has none, and \<open>addPrefix\<close>
  changes the \<open>iframe\<close> and leaves the \<open>img\<close> tag as it was.
\<close>

theorem first_occurrence_outside_tag_counterexample:
  "getImgSrcs (''<iframe src='' @ DQ @ ''a.png'' @ DQ @ ''></iframe>''
                @ ''<img src='' @ DQ @ ''a.png'' @ DQ @ ''>'') = [(Some ''a.png'', None)]
   \<and> getImgSrcs (''<iframe src='' @ DQ @ ''a.png'' @ DQ @ ''></iframe>'') = []
   \<and> addPrefix (Some (''<iframe src='' @ DQ @ ''a.png'' @ DQ @ ''></iframe>''
                        @ ''<img src='' @ DQ @ ''a.png'' @ DQ @ ''>'')) (Some ''/p/'')
       = Inr (''<iframe src='' @ DQ @ ''/p/a.png'' @ DQ @ ''></iframe>''
                @ ''<img src='' @ DQ @ ''a.png'' @ DQ @ ''>'')"
  by (simp add: html_defs regex_defs)

end
